theory Spec2Isabelle
  imports Main
begin

section \<open>Python values used by the transcription pipeline\<close>

text \<open>
  The pipeline of \<^verbatim>\<open>scripts/transcribe.py\<close> is embedded function by function.
  Exceptions are values: a computation that may raise returns \<open>exn + 'a\<close>, with
  \<open>Inl\<close> carrying the exception.  Console output (\<^verbatim>\<open>print\<close>) is not part of the
  model.  Strings are lists of 8-bit characters.
\<close>

datatype exn =
    ValueError
  | IndexError
  | KeyError string
  | OSError string
  | RequestException string

text \<open>
  A \<^verbatim>\<open>pathlib.Path\<close> is the list of its parts; \<^verbatim>\<open>p / s\<close> appends one part.
  \<^verbatim>\<open>Path.name\<close> is the last part, \<^verbatim>\<open>Path.stem\<close> the name without its last
  suffix (\<^verbatim>\<open>i = name.rfind('.')\<close>, cut when \<^verbatim>\<open>0 < i < len(name) - 1\<close>).
\<close>

type_synonym path = "string list"

definition path_div :: "path \<Rightarrow> string \<Rightarrow> path" where
  "path_div p s = p @ [s]"

definition name :: "path \<Rightarrow> string" where
  "name p = (if p = [] then [] else last p)"

fun rfind :: "char \<Rightarrow> string \<Rightarrow> nat option" where
  "rfind c [] = None"
| "rfind c (x # xs) =
     (case rfind c xs of
        Some i \<Rightarrow> Some (Suc i)
      | None \<Rightarrow> if x = c then Some 0 else None)"

definition stem :: "path \<Rightarrow> string" where
  "stem p =
     (let nm = name p in
      case rfind (CHR ''.'') nm of
        None \<Rightarrow> nm
      | Some i \<Rightarrow> if 0 < i \<and> i + 1 < length nm then take i nm else nm)"

text \<open>
  \<^verbatim>\<open>s.split(sep)\<close>: the pieces between the non-overlapping occurrences of \<open>sep\<close>,
  found from the left.  An empty separator raises \<^verbatim>\<open>ValueError\<close>.
\<close>

function split_from :: "string \<Rightarrow> string \<Rightarrow> string \<Rightarrow> string list" where
  "split_from sep piece [] = [piece]"
| "split_from sep piece (c # s) =
     (if sep \<noteq> [] \<and> take (length sep) (c # s) = sep
      then piece # split_from sep [] (drop (length sep) (c # s))
      else split_from sep (piece @ [c]) s)"
  by pat_completeness auto
termination
  by (relation "measure (\<lambda>(sep, piece, s). length s)") auto

definition split :: "string \<Rightarrow> string \<Rightarrow> exn + string list" where
  "split s sep = (if sep = [] then Inl ValueError else Inr (split_from sep [] s))"

text \<open>\<^verbatim>\<open>xs[i]\<close> for a non-negative index: out of range raises \<^verbatim>\<open>IndexError\<close>.\<close>

definition index :: "'a list \<Rightarrow> nat \<Rightarrow> exn + 'a" where
  "index xs i = (if i < length xs then Inr (xs ! i) else Inl IndexError)"

subsection \<open>Decimal numerals\<close>

definition digits :: string where
  "digits = ''0123456789''"

definition digit_val :: "char \<Rightarrow> int" where
  "digit_val c = of_char c - 48"

text \<open>\<^verbatim>\<open>int(s)\<close> on a token of spaces and decimal digits (the spaces are stripped).\<close>

definition int_of :: "string \<Rightarrow> int" where
  "int_of s = foldl (\<lambda>n c. 10 * n + digit_val c) 0 (filter (\<lambda>c. c \<noteq> CHR '' '') s)"

subsection \<open>The time-format matcher of \<^verbatim>\<open>datetime.strptime\<close>\<close>

text \<open>
  \<^verbatim>\<open>strptime\<close> turns the format into a regular expression, one named group per
  directive, and matches it at the start of the data with a backtracking matcher; the
  first match in the order of the alternatives is the one taken.  \<open>rx_match\<close> lists
  the matches in that order, each with its groups and the unread rest.
\<close>

datatype rx =
    Cls string
  | Seq rx rx
  | Alt rx rx
  | Grp char rx

fun rx_match :: "rx \<Rightarrow> string \<Rightarrow> ((char \<times> string) list \<times> string) list" where
  "rx_match (Cls cs) s =
     (case s of [] \<Rightarrow> [] | c # r \<Rightarrow> if c \<in> set cs then [([], r)] else [])"
| "rx_match (Seq a b) s =
     concat (map (\<lambda>m1. map (\<lambda>m2. (fst m1 @ fst m2, snd m2)) (rx_match b (snd m1)))
                 (rx_match a s))"
| "rx_match (Alt a b) s = rx_match a s @ rx_match b s"
| "rx_match (Grp n a) s =
     map (\<lambda>m. ((n, take (length s - length (snd m)) s) # fst m, snd m)) (rx_match a s)"

definition D :: rx where
  "D = Cls digits"

fun seqs :: "rx list \<Rightarrow> rx" where
  "seqs [] = Cls []"
| "seqs [a] = a"
| "seqs (a # as) = Seq a (seqs as)"

fun alts :: "rx list \<Rightarrow> rx" where
  "alts [] = Cls []"
| "alts [a] = a"
| "alts (a # as) = Alt a (alts as)"

text \<open>
  The directives of the format \<^verbatim>\<open>%Y-%m-%d_%H-%M-%S\<close>:
  \<^verbatim>\<open>Y: \d\d\d\d\<close>, \<^verbatim>\<open>m: 1[0-2]|0[1-9]|[1-9]\<close>,
  \<^verbatim>\<open>d: 3[0-1]|[1-2]\d|0[1-9]|[1-9]| [1-9]\<close>, \<^verbatim>\<open>H: 2[0-3]|[0-1]\d|\d\<close>,
  \<^verbatim>\<open>M: [0-5]\d|\d\<close>, \<^verbatim>\<open>S: 6[0-1]|[0-5]\d|\d\<close>.
\<close>

definition rx_Y :: rx where
  "rx_Y = Grp (CHR ''Y'') (seqs [D, D, D, D])"

definition rx_m :: rx where
  "rx_m = Grp (CHR ''m'')
     (alts [Seq (Cls ''1'') (Cls ''012''), Seq (Cls ''0'') (Cls ''123456789''),
            Cls ''123456789''])"

definition rx_d :: rx where
  "rx_d = Grp (CHR ''d'')
     (alts [Seq (Cls ''3'') (Cls ''01''), Seq (Cls ''12'') D,
            Seq (Cls ''0'') (Cls ''123456789''), Cls ''123456789'',
            Seq (Cls '' '') (Cls ''123456789'')])"

definition rx_H :: rx where
  "rx_H = Grp (CHR ''H'')
     (alts [Seq (Cls ''2'') (Cls ''0123''), Seq (Cls ''01'') D, D])"

definition rx_M :: rx where
  "rx_M = Grp (CHR ''M'') (alts [Seq (Cls ''012345'') D, D])"

definition rx_S :: rx where
  "rx_S = Grp (CHR ''S'')
     (alts [Seq (Cls ''6'') (Cls ''01''), Seq (Cls ''012345'') D, D])"

definition format_regex :: rx where
  "format_regex =
     seqs [rx_Y, Cls ''-'', rx_m, Cls ''-'', rx_d, Cls ''_'',
           rx_H, Cls ''-'', rx_M, Cls ''-'', rx_S]"

subsection \<open>\<^verbatim>\<open>datetime\<close> and \<^verbatim>\<open>timedelta\<close>\<close>

record datetime =
  year :: int
  month :: int
  day :: int
  hour :: int
  minute :: int
  second :: int

definition is_leap :: "int \<Rightarrow> bool" where
  "is_leap y \<longleftrightarrow> y mod 4 = 0 \<and> (y mod 100 \<noteq> 0 \<or> y mod 400 = 0)"

definition DAYS_IN_MONTH :: "int list" where
  "DAYS_IN_MONTH = [0, 31, 28, 31, 30, 31, 30, 31, 31, 30, 31, 30, 31]"

definition DAYS_BEFORE_MONTH :: "int list" where
  "DAYS_BEFORE_MONTH = [0, 0, 31, 59, 90, 120, 151, 181, 212, 243, 273, 304, 334]"

definition days_in_month :: "int \<Rightarrow> int \<Rightarrow> int" where
  "days_in_month y m = (if m = 2 \<and> is_leap y then 29 else DAYS_IN_MONTH ! nat m)"

definition days_before_year :: "int \<Rightarrow> int" where
  "days_before_year y =
     (let y1 = y - 1 in y1 * 365 + y1 div 4 - y1 div 100 + y1 div 400)"

definition days_before_month :: "int \<Rightarrow> int \<Rightarrow> int" where
  "days_before_month y m =
     DAYS_BEFORE_MONTH ! nat m + (if m > 2 \<and> is_leap y then 1 else 0)"

definition toordinal :: "datetime \<Rightarrow> int" where
  "toordinal t = days_before_year (year t) + days_before_month (year t) (month t) + day t"

text \<open>
  The constructor \<^verbatim>\<open>datetime(year, month, day, hour, minute, second)\<close> checks the
  ranges of its fields and raises \<^verbatim>\<open>ValueError\<close> outside them.
\<close>

definition valid_datetime :: "datetime \<Rightarrow> bool" where
  "valid_datetime t \<longleftrightarrow>
     1 \<le> year t \<and> year t \<le> 9999 \<and> 1 \<le> month t \<and> month t \<le> 12 \<and>
     1 \<le> day t \<and> day t \<le> days_in_month (year t) (month t) \<and>
     0 \<le> hour t \<and> hour t \<le> 23 \<and> 0 \<le> minute t \<and> minute t \<le> 59 \<and>
     0 \<le> second t \<and> second t \<le> 59"

definition mk_datetime :: "int \<Rightarrow> int \<Rightarrow> int \<Rightarrow> int \<Rightarrow> int \<Rightarrow> int \<Rightarrow> exn + datetime" where
  "mk_datetime y mo d h mi s =
     (let t = \<lparr>year = y, month = mo, day = d, hour = h, minute = mi, second = s\<rparr>
      in if valid_datetime t then Inr t else Inl ValueError)"

definition group :: "(char \<times> string) list \<Rightarrow> char \<Rightarrow> string" where
  "group gs n = (case map_of gs n of None \<Rightarrow> [] | Some v \<Rightarrow> v)"

text \<open>
  \<^verbatim>\<open>datetime.strptime(data, "%Y-%m-%d_%H-%M-%S")\<close>: no match, or a match that
  leaves data unread, raises \<^verbatim>\<open>ValueError\<close>; so does a field the constructor refuses.
\<close>

definition strptime :: "string \<Rightarrow> exn + datetime" where
  "strptime data =
     (case rx_match format_regex data of
        [] \<Rightarrow> Inl ValueError
      | (gs, rest) # _ \<Rightarrow>
          if rest \<noteq> [] then Inl ValueError
          else mk_datetime (int_of (group gs (CHR ''Y''))) (int_of (group gs (CHR ''m'')))
                 (int_of (group gs (CHR ''d''))) (int_of (group gs (CHR ''H'')))
                 (int_of (group gs (CHR ''M''))) (int_of (group gs (CHR ''S''))))"

text \<open>
  \<^verbatim>\<open>(a - b).total_seconds()\<close>: the difference of the ordinals in days plus the
  difference of the seconds of the day.  The value is a whole number of seconds below
  \<open>2 ^ 53\<close> in size, so the float Python returns holds it exactly and the comparison
  with \<open>600\<close> is the comparison of integers.
\<close>

definition seconds_of_day :: "datetime \<Rightarrow> int" where
  "seconds_of_day t = second t + minute t * 60 + hour t * 3600"

definition total_seconds_between :: "datetime \<Rightarrow> datetime \<Rightarrow> int" where
  "total_seconds_between a b =
     (toordinal a - toordinal b) * 86400 + (seconds_of_day a - seconds_of_day b)"

section \<open>Phase 2: the conversation segmenter\<close>

text \<open>The timestamp of a chunk: \<^verbatim>\<open>strptime(chunk.stem.split("chunk_")[1], ...)\<close>.\<close>

definition chunk_time :: "path \<Rightarrow> exn + datetime" where
  "chunk_time chunk =
     (case split (stem chunk) ''chunk_'' of
        Inl e \<Rightarrow> Inl e
      | Inr pieces \<Rightarrow>
          (case index pieces 1 of
             Inl e \<Rightarrow> Inl e
           | Inr stamp \<Rightarrow> strptime stamp))"

text \<open>The body of the \<^verbatim>\<open>try\<close> block: the previous chunk is parsed first.\<close>

definition try_gap :: "path \<Rightarrow> path \<Rightarrow> exn + int" where
  "try_gap prev_chunk curr_chunk =
     (case chunk_time prev_chunk of
        Inl e \<Rightarrow> Inl e
      | Inr prev_time \<Rightarrow>
          (case chunk_time curr_chunk of
             Inl e \<Rightarrow> Inl e
           | Inr curr_time \<Rightarrow> Inr (total_seconds_between curr_time prev_time)))"

text \<open>\<^verbatim>\<open>except (ValueError, IndexError): gap = 300\<close>; any other exception goes on.\<close>

definition gap_of :: "path \<Rightarrow> path \<Rightarrow> exn + int" where
  "gap_of prev_chunk curr_chunk =
     (case try_gap prev_chunk curr_chunk of
        Inr gap \<Rightarrow> Inr gap
      | Inl e \<Rightarrow> if e = ValueError \<or> e = IndexError then Inr 300 else Inl e)"

text \<open>
  The loop \<^verbatim>\<open>for i in range(1, len(chunks))\<close> with its two accumulators
  \<^verbatim>\<open>conversations\<close> and \<^verbatim>\<open>current\<close>; after the loop the open group is appended.
\<close>

function segment_loop ::
  "path list \<Rightarrow> nat \<Rightarrow> path list list \<Rightarrow> path list \<Rightarrow> exn + path list list" where
  "segment_loop chunks i conversations current =
     (if i < length chunks then
        (case gap_of (chunks ! (i - 1)) (chunks ! i) of
           Inl e \<Rightarrow> Inl e
         | Inr gap \<Rightarrow>
             if gap > 600
             then segment_loop chunks (i + 1) (conversations @ [current]) [chunks ! i]
             else segment_loop chunks (i + 1) conversations (current @ [chunks ! i]))
      else Inr (conversations @ [current]))"
  by pat_completeness auto
termination
  by (relation "measure (\<lambda>(chunks, i, conversations, current). length chunks - i)") auto

definition phase2_segment :: "path list \<Rightarrow> exn + path list list" where
  "phase2_segment chunks =
     (if chunks = [] then Inr []
      else segment_loop chunks 1 [] [chunks ! 0])"

subsection \<open>Vocabulary for the segmenter's properties\<close>

text \<open>
  The decision the loop takes at a pair of neighbouring chunks: the computed gap
  exceeds the threshold of 600 seconds.
\<close>

definition exceeds_threshold :: "path \<Rightarrow> path \<Rightarrow> bool" where
  "exceeds_threshold prev_chunk curr_chunk =
     (case gap_of prev_chunk curr_chunk of Inr gap \<Rightarrow> gap > 600 | Inl e \<Rightarrow> False)"

text \<open>
  \<open>group_starts gs\<close> lists, for each group of \<open>gs\<close>, the position of its first
  element in \<open>concat gs\<close>: chunk \<open>i\<close> starts a group exactly when \<open>i\<close> is in that list.
\<close>

fun starts_from :: "nat \<Rightarrow> 'a list list \<Rightarrow> nat list" where
  "starts_from k [] = []"
| "starts_from k (g # gs) = k # starts_from (k + length g) gs"

definition group_starts :: "'a list list \<Rightarrow> nat list" where
  "group_starts gs = starts_from 0 gs"

text \<open>The positions from \<open>i\<close> on whose gap to the chunk before exceeds the threshold.\<close>

definition cut_points :: "path list \<Rightarrow> nat \<Rightarrow> nat list" where
  "cut_points chunks i =
     filter (\<lambda>j. exceeds_threshold (chunks ! (j - 1)) (chunks ! j)) [i..<length chunks]"

text \<open>A chunk whose filename timestamp does not parse.\<close>

definition malformed :: "path \<Rightarrow> bool" where
  "malformed chunk = (case chunk_time chunk of Inl e \<Rightarrow> True | Inr t \<Rightarrow> False)"

text \<open>
  The order of \<^verbatim>\<open>datetime\<close> values: the fields compared from the year down to
  the second.
\<close>

definition dt_less :: "datetime \<Rightarrow> datetime \<Rightarrow> bool" where
  "dt_less a b \<longleftrightarrow>
     year a < year b \<or> (year a = year b \<and>
    (month a < month b \<or> (month a = month b \<and>
    (day a < day b \<or> (day a = day b \<and>
    (hour a < hour b \<or> (hour a = hour b \<and>
    (minute a < minute b \<or> (minute a = minute b \<and> second a < second b)))))))))"

text \<open>Chunks named as the recorder names them, for the examples.\<close>

definition chunk_at :: "string \<Rightarrow> path" where
  "chunk_at stamp = [''recordings'', ''2026-02-28'', ''chunk_2026-02-28_'' @ stamp @ ''.wav'']"

text \<open>The number of days of a year, for the properties of the ordinal.\<close>

definition days_in_year :: "int \<Rightarrow> int" where
  "days_in_year y = (if is_leap y then 366 else 365)"

definition example_day :: "path list" where
  "example_day = map chunk_at [''10-00-00'', ''10-04-00'', ''10-20-00'']"

definition close_chunks :: "path list" where
  "close_chunks = map chunk_at [''10-00-00'', ''10-04-00'', ''10-14-00'']"

definition far_chunks :: "path list" where
  "far_chunks = map chunk_at [''10-00-00'', ''10-10-01'', ''10-30-00'']"

definition garbled_chunk :: path where
  "garbled_chunk = [''recordings'', ''2026-02-28'', ''chunk_garbled.wav'']"

definition garbled_day :: "path list" where
  "garbled_day = [chunk_at ''10-00-00'', garbled_chunk, chunk_at ''12-00-00'', chunk_at ''12-30-00'']"

definition repaired_day :: "path list" where
  "repaired_day = map chunk_at [''10-00-00'', ''10-05-00'', ''10-10-00'', ''10-40-00'']"

definition backwards_day :: "path list" where
  "backwards_day = map chunk_at [''10-20-00'', ''10-00-00'']"

section \<open>The world outside the script\<close>

text \<open>
  Phases 3 and 4 act on the file system, start the external merge tool and talk to the
  transcription services.  The world is a record of oracles: what each call returns or
  raises.  A service answers as a function of the request (for the repeated status
  request: of the request and the number of the attempt).  A response body is read at
  the keys the script reads; \<open>None\<close> is a missing key, and a present key holds a value
  of the type the script's operations on it need (a string, a list of utterances, whole
  milliseconds).  Every function returns, with its result, the list of the events it
  caused, in order.  The modules the script imports are taken to be installed.
\<close>

datatype event =
    Mkdir path
  | WriteFile path string
  | Run "string list"
  | Unlink path
  | ReadFile path
  | HttpPost string
  | HttpGet string
  | Sleep nat

record utterance =
  u_speaker :: "string option"
  u_text :: "string option"
  u_start :: "int option"

record poll_result =
  r_status :: "string option"
  r_error :: "string option"
  r_utterances :: "utterance list option"
  r_text :: "string option"

text \<open>
  Of a Gemini response the script reads the text at
  \<^verbatim>\<open>["candidates"][0]["content"]["parts"][0]["text"]\<close> (\<open>None\<close> when a key or an
  index on the way is missing) and, failing that, \<^verbatim>\<open>json.dumps\<close> of the whole body.
\<close>

record gemini_result =
  g_text :: "string option"
  g_dumps :: string

record world =
  environ :: "string \<rightharpoonup> string"
  cwd :: path
  mkdir :: "path \<Rightarrow> exn option"
  open_write :: "path \<Rightarrow> exn option"
  unlink :: "path \<Rightarrow> exn option"
  subprocess_run :: "string list \<Rightarrow> exn option"
  read_file :: "path \<Rightarrow> exn + string"
  write_text :: "path \<Rightarrow> string \<Rightarrow> exn option"
  aai_upload :: "string \<Rightarrow> string \<Rightarrow> exn + string option"
  aai_transcript :: "string \<Rightarrow> string \<Rightarrow> exn + string option"
  aai_poll :: "string \<Rightarrow> string \<Rightarrow> nat \<Rightarrow> exn + poll_result"
  gemini_generate :: "string \<Rightarrow> string \<Rightarrow> exn + gemini_result"

subsection \<open>Strings\<close>

definition nl :: string where
  "nl = [CHR 0x0A]"

definition apostrophe :: string where
  "apostrophe = [CHR 0x27]"

text \<open>\<^verbatim>\<open>sep.join(xs)\<close>.\<close>

fun join :: "string \<Rightarrow> string list \<Rightarrow> string" where
  "join sep [] = []"
| "join sep [x] = x"
| "join sep (x # y # ys) = x @ sep @ join sep (y # ys)"

text \<open>\<^verbatim>\<open>str(n)\<close> for a natural number.\<close>

fun str_nat :: "nat \<Rightarrow> string" where
  "str_nat n =
     (if n < 10 then [char_of (48 + n)]
      else str_nat (n div 10) @ [char_of (48 + n mod 10)])"

declare str_nat.simps [simp del]

text \<open>\<^verbatim>\<open>str(p)\<close> and \<^verbatim>\<open>p.absolute()\<close>; the root is the empty first part.\<close>

definition path_str :: "path \<Rightarrow> string" where
  "path_str p = join ''/'' p"

definition absolute :: "world \<Rightarrow> path \<Rightarrow> path" where
  "absolute w p = (if p \<noteq> [] \<and> hd p = [] then p else cwd w @ p)"

definition parent :: "path \<Rightarrow> path" where
  "parent p = butlast p"

section \<open>Phase 3: one audio file per conversation\<close>

definition ffmpeg_command :: "path \<Rightarrow> path \<Rightarrow> string list" where
  "ffmpeg_command filelist output =
     [''ffmpeg'', ''-y'', ''-f'', ''concat'', ''-safe'', ''0'',
      ''-i'', path_str filelist, ''-c'', ''copy'', path_str output]"

definition filelist_text :: "world \<Rightarrow> path list \<Rightarrow> string" where
  "filelist_text w conv =
     concat (map (\<lambda>chunk. ''file '' @ apostrophe @ path_str (absolute w chunk) @ apostrophe @ nl)
       conv)"

text \<open>
  The body of the loop for the conversation at index \<open>i\<close>: the artifact appended to
  \<^verbatim>\<open>outputs\<close>, or the exception raised, with the events caused.  The exit status of
  the merge tool is not looked at; only a failure to start it raises.
\<close>

definition concat_one ::
  "world \<Rightarrow> path \<Rightarrow> nat \<Rightarrow> path list \<Rightarrow> (exn + path) \<times> event list" where
  "concat_one w output_dir i conv =
     (if length conv = 1 then (Inr (conv ! 0), [])
      else
        let output = path_div output_dir (''conversation_'' @ str_nat (i + 1) @ ''.wav'');
            filelist = path_div output_dir (''filelist_'' @ str_nat (i + 1) @ ''.txt'')
        in case open_write w filelist of
             Some e \<Rightarrow> (Inl e, [])
           | None \<Rightarrow>
               let ev1 = [WriteFile filelist (filelist_text w conv),
                          Run (ffmpeg_command filelist output)]
               in case subprocess_run w (ffmpeg_command filelist output) of
                    Some e \<Rightarrow> (Inl e, ev1)
                  | None \<Rightarrow>
                      (case unlink w filelist of
                         Some e \<Rightarrow> (Inl e, ev1)
                       | None \<Rightarrow> (Inr output, ev1 @ [Unlink filelist])))"

fun concat_loop ::
  "world \<Rightarrow> path \<Rightarrow> nat \<Rightarrow> path list list \<Rightarrow> path list \<Rightarrow> event list \<Rightarrow>
   (exn + path list) \<times> event list" where
  "concat_loop w output_dir i [] outputs evs = (Inr outputs, evs)"
| "concat_loop w output_dir i (conv # rest) outputs evs =
     (case concat_one w output_dir i conv of
        (Inl e, ev) \<Rightarrow> (Inl e, evs @ ev)
      | (Inr artifact, ev) \<Rightarrow>
          concat_loop w output_dir (i + 1) rest (outputs @ [artifact]) (evs @ ev))"

definition phase3_concat ::
  "world \<Rightarrow> path list list \<Rightarrow> path \<Rightarrow> (exn + path list) \<times> event list" where
  "phase3_concat w conversations output_dir =
     (case mkdir w output_dir of
        Some e \<Rightarrow> (Inl e, [])
      | None \<Rightarrow> concat_loop w output_dir 0 conversations [] [Mkdir output_dir])"

definition is_merge :: "event \<Rightarrow> bool" where
  "is_merge ev = (case ev of Run cmd \<Rightarrow> True | _ \<Rightarrow> False)"

section \<open>Phase 4: the transcription providers\<close>

text \<open>
  \<^verbatim>\<open>f"{start:.0f}"\<close> for \<^verbatim>\<open>start = ms / 1000\<close>: the quotient rounded to the
  nearest whole number, a tie to the even one, and a minus sign for every negative
  quotient (so \<open>-0\<close> for one that rounds to zero).  For offsets below \<open>2 ^ 42\<close>
  seconds the float quotient rounds as the exact quotient does.
\<close>

definition round_half_even :: "int \<Rightarrow> int" where
  "round_half_even ms =
     (let q = ms div 1000; r = ms mod 1000
      in if r < 500 then q else if r > 500 then q + 1
         else if even q then q else q + 1)"

definition seconds_str :: "int \<Rightarrow> string" where
  "seconds_str ms =
     (if ms < 0 then ''-'' @ str_nat (nat (- round_half_even ms))
      else str_nat (nat (round_half_even ms)))"

text \<open>One line of the transcript; a missing key of the utterance raises.\<close>

definition format_utterance :: "utterance \<Rightarrow> exn + string" where
  "format_utterance u =
     (case u_speaker u of
        None \<Rightarrow> Inl (KeyError ''speaker'')
      | Some speaker \<Rightarrow>
          (case u_text u of
             None \<Rightarrow> Inl (KeyError ''text'')
           | Some txt \<Rightarrow>
               (case u_start u of
                  None \<Rightarrow> Inl (KeyError ''start'')
                | Some ms \<Rightarrow>
                    Inr (''**Speaker '' @ speaker @ ''** ('' @ seconds_str ms @ ''s): '' @ txt))))"

fun format_lines :: "utterance list \<Rightarrow> exn + string list" where
  "format_lines [] = Inr []"
| "format_lines (u # us) =
     (case format_utterance u of
        Inl e \<Rightarrow> Inl e
      | Inr line \<Rightarrow>
          (case format_lines us of Inl e \<Rightarrow> Inl e | Inr ls \<Rightarrow> Inr (line # ls)))"

text \<open>
  \<^verbatim>\<open>"\n\n".join(lines) if lines else result.get("text", "No text")\<close>, with
  \<^verbatim>\<open>lines\<close> built from \<^verbatim>\<open>result.get("utterances", [])\<close>.
\<close>

definition format_result :: "poll_result \<Rightarrow> exn + string" where
  "format_result result =
     (case format_lines (case r_utterances result of None \<Rightarrow> [] | Some us \<Rightarrow> us) of
        Inl e \<Rightarrow> Inl e
      | Inr ls \<Rightarrow>
          if ls \<noteq> [] then Inr (join (nl @ nl) ls)
          else Inr (case r_text result of None \<Rightarrow> ''No text'' | Some t \<Rightarrow> t))"

definition upload_url :: string where
  "upload_url = ''https://api.assemblyai.com/v2/upload''"

definition transcript_url :: string where
  "transcript_url = ''https://api.assemblyai.com/v2/transcript''"

text \<open>
  The polling loop \<^verbatim>\<open>while True\<close>: it ends when the status is \<^verbatim>\<open>completed\<close>
  (the loop is left with the result), when it is \<^verbatim>\<open>error\<close> (the function returns
  the error text) or when a request raises.  It has no bound: where the service never
  reports a final status the loop does not return, which is the value \<open>None\<close>.
\<close>

datatype poll_exit = Completed poll_result | Returned string

partial_function (option) poll_loop ::
  "world \<Rightarrow> string \<Rightarrow> string \<Rightarrow> nat \<Rightarrow> event list \<Rightarrow>
   ((exn + poll_exit) \<times> event list) option" where
  "poll_loop w api_key transcript_id n evs =
     (let evs1 = evs @ [HttpGet (transcript_url @ ''/'' @ transcript_id)]
      in case aai_poll w api_key transcript_id n of
           Inl e \<Rightarrow> Some (Inl e, evs1)
         | Inr result \<Rightarrow>
             (case r_status result of
                None \<Rightarrow> Some (Inl (KeyError ''status''), evs1)
              | Some status \<Rightarrow>
                  if status = ''completed'' then Some (Inr (Completed result), evs1)
                  else if status = ''error''
                  then Some (Inr (Returned (''Error: '' @
                         (case r_error result of None \<Rightarrow> ''unknown'' | Some m \<Rightarrow> m))), evs1)
                  else poll_loop w api_key transcript_id (n + 1) (evs1 @ [Sleep 3])))"

definition diarize_assemblyai ::
  "world \<Rightarrow> path \<Rightarrow> ((exn + string) \<times> event list) option" where
  "diarize_assemblyai w audio_path =
     (case environ w ''ASSEMBLYAI_API_KEY'' of
        None \<Rightarrow> Some (Inr ''Error: ASSEMBLYAI_API_KEY not set'', [])
      | Some api_key \<Rightarrow>
          if api_key = [] then Some (Inr ''Error: ASSEMBLYAI_API_KEY not set'', [])
          else
            (case read_file w audio_path of
               Inl e \<Rightarrow> Some (Inl e, [])
             | Inr bytes \<Rightarrow>
                 let evs1 = [ReadFile audio_path, HttpPost upload_url]
                 in (case aai_upload w api_key bytes of
                       Inl e \<Rightarrow> Some (Inl e, evs1)
                     | Inr None \<Rightarrow> Some (Inl (KeyError ''upload_url''), evs1)
                     | Inr (Some url) \<Rightarrow>
                         let evs2 = evs1 @ [HttpPost transcript_url]
                         in (case aai_transcript w api_key url of
                               Inl e \<Rightarrow> Some (Inl e, evs2)
                             | Inr None \<Rightarrow> Some (Inl (KeyError ''id''), evs2)
                             | Inr (Some transcript_id) \<Rightarrow>
                                 (case poll_loop w api_key transcript_id 0 evs2 of
                                    None \<Rightarrow> None
                                  | Some (Inl e, evs3) \<Rightarrow> Some (Inl e, evs3)
                                  | Some (Inr (Returned msg), evs3) \<Rightarrow> Some (Inr msg, evs3)
                                  | Some (Inr (Completed result), evs3) \<Rightarrow>
                                      Some (format_result result, evs3))))))"

definition gemini_url :: "string \<Rightarrow> string" where
  "gemini_url api_key =
     ''https://generativelanguage.googleapis.com/v1beta/models/gemini-2.0-flash:generateContent?key=''
     @ api_key"

definition diarize_gemini ::
  "world \<Rightarrow> path \<Rightarrow> ((exn + string) \<times> event list) option" where
  "diarize_gemini w audio_path =
     (case environ w ''GEMINI_API_KEY'' of
        None \<Rightarrow> Some (Inr ''Error: GEMINI_API_KEY not set'', [])
      | Some api_key \<Rightarrow>
          if api_key = [] then Some (Inr ''Error: GEMINI_API_KEY not set'', [])
          else
            (case read_file w audio_path of
               Inl e \<Rightarrow> Some (Inl e, [])
             | Inr bytes \<Rightarrow>
                 let evs1 = [ReadFile audio_path, HttpPost (gemini_url api_key)]
                 in (case gemini_generate w api_key bytes of
                       Inl e \<Rightarrow> Some (Inl e, evs1)
                     | Inr result \<Rightarrow>
                         (case g_text result of
                            Some t \<Rightarrow> Some (Inr t, evs1)
                          | None \<Rightarrow> Some (Inr (''Error: '' @ take 200 (g_dumps result)), evs1)))))"

section \<open>Phase 4: the orchestrator\<close>

definition separator :: string where
  "separator = nl @ nl @ ''---'' @ nl @ nl"

text \<open>The provider call for one audio file, by the provider's name.\<close>

definition transcribe ::
  "world \<Rightarrow> string \<Rightarrow> path \<Rightarrow> ((exn + string) \<times> event list) option" where
  "transcribe w provider audio =
     (if provider = ''assemblyai'' then diarize_assemblyai w audio
      else if provider = ''gemini'' then diarize_gemini w audio
      else Some (Inr (''Unknown provider: '' @ provider), []))"

text \<open>
  The loop \<^verbatim>\<open>for audio in audio_files\<close>: there is no handler around the provider
  call, so an exception raised in it leaves the loop and the function.
\<close>

fun diarize_loop ::
  "world \<Rightarrow> string \<Rightarrow> path list \<Rightarrow> string list \<Rightarrow> event list \<Rightarrow>
   ((exn + string list) \<times> event list) option" where
  "diarize_loop w provider [] all_text evs = Some (Inr all_text, evs)"
| "diarize_loop w provider (audio # rest) all_text evs =
     (case transcribe w provider audio of
        None \<Rightarrow> None
      | Some (Inl e, ev) \<Rightarrow> Some (Inl e, evs @ ev)
      | Some (Inr txt, ev) \<Rightarrow> diarize_loop w provider rest (all_text @ [txt]) (evs @ ev))"

definition phase4_diarize ::
  "world \<Rightarrow> path list \<Rightarrow> path \<Rightarrow> string \<Rightarrow> ((exn + path) \<times> event list) option" where
  "phase4_diarize w audio_files transcript_path provider =
     (case mkdir w (parent transcript_path) of
        Some e \<Rightarrow> Some (Inl e, [])
      | None \<Rightarrow>
          (case diarize_loop w provider audio_files [] [Mkdir (parent transcript_path)] of
             None \<Rightarrow> None
           | Some (Inl e, evs) \<Rightarrow> Some (Inl e, evs)
           | Some (Inr all_text, evs) \<Rightarrow>
               (case write_text w transcript_path (join separator all_text) of
                  Some e \<Rightarrow> Some (Inl e, evs)
                | None \<Rightarrow>
                    Some (Inr transcript_path,
                          evs @ [WriteFile transcript_path (join separator all_text)]))))"

subsection \<open>Vocabulary for the properties of phases 3 and 4\<close>

text \<open>
  A status response that is neither final nor an error; a job whose upload and submission
  succeed and whose first \<open>n\<close> status responses are of that kind, the next one being
  \<open>result\<close>; and, for one audio file, the text block, the events and whether the
  provider call returns a text at all.
\<close>

definition pending :: "exn + poll_result \<Rightarrow> bool" where
  "pending x =
     (case x of
        Inl e \<Rightarrow> False
      | Inr result \<Rightarrow>
          (case r_status result of
             None \<Rightarrow> False
           | Some status \<Rightarrow> status \<noteq> ''completed'' \<and> status \<noteq> ''error''))"

definition job_ends :: "world \<Rightarrow> path \<Rightarrow> nat \<Rightarrow> poll_result \<Rightarrow> bool" where
  "job_ends w audio n result =
     (case environ w ''ASSEMBLYAI_API_KEY'' of
        None \<Rightarrow> False
      | Some api_key \<Rightarrow>
          api_key \<noteq> [] \<and>
          (case read_file w audio of
             Inl e \<Rightarrow> False
           | Inr bytes \<Rightarrow>
               (case aai_upload w api_key bytes of
                  Inr (Some url) \<Rightarrow>
                    (case aai_transcript w api_key url of
                       Inr (Some transcript_id) \<Rightarrow>
                         list_all (\<lambda>k. pending (aai_poll w api_key transcript_id k)) [0..<n] \<and>
                         aai_poll w api_key transcript_id n = Inr result
                     | _ \<Rightarrow> False)
                | _ \<Rightarrow> False)))"

definition block :: "world \<Rightarrow> string \<Rightarrow> path \<Rightarrow> string" where
  "block w provider audio =
     (case transcribe w provider audio of Some (Inr txt, ev) \<Rightarrow> txt | _ \<Rightarrow> [])"

definition events :: "world \<Rightarrow> string \<Rightarrow> path \<Rightarrow> event list" where
  "events w provider audio =
     (case transcribe w provider audio of Some (r, ev) \<Rightarrow> ev | None \<Rightarrow> [])"

definition returns_text :: "world \<Rightarrow> string \<Rightarrow> path \<Rightarrow> bool" where
  "returns_text w provider audio =
     (case transcribe w provider audio of Some (Inr txt, ev) \<Rightarrow> True | _ \<Rightarrow> False)"

text \<open>
  An utterance with all its keys, from its speaker, start and text; the line the
  specification asks for it; the two messages for a missing credential.
\<close>

definition utterance_of :: "string \<times> int \<times> string \<Rightarrow> utterance" where
  "utterance_of row =
     (case row of (speaker, ms, txt) \<Rightarrow>
        \<lparr>u_speaker = Some speaker, u_text = Some txt, u_start = Some ms\<rparr>)"

definition spec_line :: "string \<times> int \<times> string \<Rightarrow> string" where
  "spec_line row =
     (case row of (speaker, ms, txt) \<Rightarrow>
        ''**Speaker '' @ speaker @ ''** ('' @ seconds_str ms @ ''s): '' @ txt)"

definition assemblyai_missing :: string where
  "assemblyai_missing = ''Error: ASSEMBLYAI_API_KEY not set''"

definition gemini_missing :: string where
  "gemini_missing = ''Error: GEMINI_API_KEY not set''"

section \<open>Properties of the segmenter\<close>

declare segment_loop.simps [simp del]


lemma strptime_exn: "strptime s = Inl e \<Longrightarrow> e = ValueError"
  by (auto simp: strptime_def mk_datetime_def Let_def split: list.splits prod.splits if_splits)

lemma chunk_time_exn: "chunk_time c = Inl e \<Longrightarrow> e = ValueError \<or> e = IndexError"
  by (auto simp: chunk_time_def split_def index_def split: sum.splits if_splits dest: strptime_exn)

lemma try_gap_exn: "try_gap a b = Inl e \<Longrightarrow> e = ValueError \<or> e = IndexError"
  by (auto simp: try_gap_def split: sum.splits dest: chunk_time_exn)

lemma gap_of_total: "\<exists>g. gap_of a b = Inr g"
  by (auto simp: gap_of_def split: sum.splits dest: try_gap_exn)

lemma segment_loop_step:
  assumes "i < length chunks"
  shows "segment_loop chunks i convs cur =
     (if exceeds_threshold (chunks ! (i - 1)) (chunks ! i)
      then segment_loop chunks (i + 1) (convs @ [cur]) [chunks ! i]
      else segment_loop chunks (i + 1) convs (cur @ [chunks ! i]))"
proof -
  obtain g where g: "gap_of (chunks ! (i - 1)) (chunks ! i) = Inr g"
    using gap_of_total by blast
  show ?thesis
    using assms g by (subst segment_loop.simps) (simp add: exceeds_threshold_def)
qed

lemma segment_loop_done:
  "\<not> i < length chunks \<Longrightarrow> segment_loop chunks i convs cur = Inr (convs @ [cur])"
  by (subst segment_loop.simps) simp

lemma starts_from_snoc:
  "starts_from k (gs @ [g]) = starts_from k gs @ [k + length (concat gs)]"
  by (induction gs arbitrary: k) (simp_all add: add.assoc)

lemma length_starts_from: "length (starts_from k gs) = length gs"
  by (induction gs arbitrary: k) simp_all

lemma segment_loop_inv:
  assumes "cur \<noteq> []" and "\<forall>g \<in> set convs. g \<noteq> []" and "i \<le> length chunks"
    and "concat convs @ cur = take i chunks"
  shows "\<exists>gs. segment_loop chunks i convs cur = Inr gs \<and> concat gs = chunks \<and>
           (\<forall>g \<in> set gs. g \<noteq> []) \<and>
           group_starts gs = group_starts (convs @ [cur]) @ cut_points chunks i"
  using assms
proof (induction "length chunks - i" arbitrary: i convs cur)
  case 0
  then have "i = length chunks" by simp
  with 0 show ?case
    by (simp add: segment_loop_done cut_points_def)
next
  case (Suc n)
  then have lt: "i < length chunks" by simp
  have n: "n = length chunks - (i + 1)" using Suc.hyps(2) by simp
  have tk: "take (i + 1) chunks = take i chunks @ [chunks ! i]"
    using lt by (simp add: take_Suc_conv_app_nth)
  have len: "length (concat convs @ cur) = i"
    using Suc.prems(4) lt by simp
  have cp: "cut_points chunks i =
      (if exceeds_threshold (chunks ! (i - 1)) (chunks ! i) then [i] else []) @
      cut_points chunks (i + 1)"
    using lt by (simp add: cut_points_def upt_conv_Cons)
  show ?case
  proof (cases "exceeds_threshold (chunks ! (i - 1)) (chunks ! i)")
    case True
    have "\<exists>gs. segment_loop chunks (i + 1) (convs @ [cur]) [chunks ! i] = Inr gs \<and>
            concat gs = chunks \<and> (\<forall>g \<in> set gs. g \<noteq> []) \<and>
            group_starts gs = group_starts ((convs @ [cur]) @ [[chunks ! i]]) @
              cut_points chunks (i + 1)"
      using Suc.prems lt tk by (intro Suc.hyps(1)[OF n]) auto
    moreover have "group_starts ((convs @ [cur]) @ [[chunks ! i]]) =
        group_starts (convs @ [cur]) @ [i]"
      using len unfolding group_starts_def by (subst starts_from_snoc) simp
    ultimately show ?thesis
      using True lt cp by (simp add: segment_loop_step)
  next
    case False
    have "\<exists>gs. segment_loop chunks (i + 1) convs (cur @ [chunks ! i]) = Inr gs \<and>
            concat gs = chunks \<and> (\<forall>g \<in> set gs. g \<noteq> []) \<and>
            group_starts gs = group_starts (convs @ [cur @ [chunks ! i]]) @
              cut_points chunks (i + 1)"
      using Suc.prems lt tk by (intro Suc.hyps(1)[OF n]) auto
    moreover have "group_starts (convs @ [cur @ [chunks ! i]]) = group_starts (convs @ [cur])"
      unfolding group_starts_def by (simp add: starts_from_snoc)
    ultimately show ?thesis
      using False lt cp by (simp add: segment_loop_step)
  qed
qed

lemma phase2_segment_char:
  assumes "chunks \<noteq> []"
  shows "\<exists>gs. phase2_segment chunks = Inr gs \<and> concat gs = chunks \<and>
           (\<forall>g \<in> set gs. g \<noteq> []) \<and> group_starts gs = 0 # cut_points chunks 1"
proof -
  have "take 1 chunks = [chunks ! 0]"
    using assms by (cases chunks) simp_all
  then have "\<exists>gs. segment_loop chunks 1 [] [chunks ! 0] = Inr gs \<and> concat gs = chunks \<and>
           (\<forall>g \<in> set gs. g \<noteq> []) \<and>
           group_starts gs = group_starts ([] @ [[chunks ! 0]]) @ cut_points chunks 1"
    using assms by (intro segment_loop_inv) (auto simp: Suc_le_eq)
  then show ?thesis
    using assms by (simp add: phase2_segment_def group_starts_def)
qed



lemma segment_loop_no_cut:
  assumes "\<forall>j. i \<le> j \<and> j < length chunks \<longrightarrow> \<not> exceeds_threshold (chunks ! (j - 1)) (chunks ! j)"
  shows "segment_loop chunks i convs cur = Inr (convs @ [cur @ drop i chunks])"
  using assms
proof (induction "length chunks - i" arbitrary: i cur)
  case 0
  then show ?case by (simp add: segment_loop_done)
next
  case (Suc n)
  then have lt: "i < length chunks" by simp
  have n: "n = length chunks - (i + 1)" using Suc.hyps(2) by simp
  have "segment_loop chunks (i + 1) convs (cur @ [chunks ! i]) =
      Inr (convs @ [(cur @ [chunks ! i]) @ drop (i + 1) chunks])"
    using Suc.prems by (intro Suc.hyps(1)[OF n]) simp
  then show ?case
    using lt Suc.prems by (simp add: segment_loop_step Cons_nth_drop_Suc)
qed

lemma segment_loop_all_cut:
  assumes "\<forall>j. i \<le> j \<and> j < length chunks \<longrightarrow> exceeds_threshold (chunks ! (j - 1)) (chunks ! j)"
  shows "segment_loop chunks i convs cur = Inr (convs @ [cur] @ map (\<lambda>c. [c]) (drop i chunks))"
  using assms
proof (induction "length chunks - i" arbitrary: i convs cur)
  case 0
  then show ?case by (simp add: segment_loop_done)
next
  case (Suc n)
  then have lt: "i < length chunks" by simp
  have n: "n = length chunks - (i + 1)" using Suc.hyps(2) by simp
  have "segment_loop chunks (i + 1) (convs @ [cur]) [chunks ! i] =
      Inr ((convs @ [cur]) @ [[chunks ! i]] @ map (\<lambda>c. [c]) (drop (i + 1) chunks))"
    using Suc.prems by (intro Suc.hyps(1)[OF n]) simp
  moreover have "drop i chunks = chunks ! i # drop (i + 1) chunks"
    using lt by (simp add: Cons_nth_drop_Suc)
  ultimately show ?case
    using lt Suc.prems by (simp add: segment_loop_step)
qed

lemma set_cut_points:
  "set (cut_points chunks 1) =
     {i. 0 < i \<and> i < length chunks \<and> exceeds_threshold (chunks ! (i - 1)) (chunks ! i)}"
  by (auto simp: cut_points_def)

subsection \<open>The order of timestamps and the sign of the gap\<close>

lemma div_step_eq:
  fixes y k :: int
  assumes "0 < k" and "y mod k = 0"
  shows "y div k = (y - 1) div k + 1"
proof -
  have "y = k * (y div k)"
    using assms(2) by (metis mult_div_mod_eq add.right_neutral)
  then have "y - 1 = k * (y div k - 1) + (k - 1)"
    by (simp add: algebra_simps)
  then have "(y - 1) div k = y div k - 1"
    using assms(1) by (intro int_div_pos_eq [where r = "k - 1"]) simp_all
  then show ?thesis by simp
qed

lemma div_step_ne:
  fixes y k :: int
  assumes "0 < k" and "y mod k \<noteq> 0"
  shows "y div k = (y - 1) div k"
proof -
  have "0 \<le> y mod k" using assms(1) by (rule pos_mod_sign)
  with assms(2) have r1: "0 \<le> y mod k - 1" by linarith
  have "y mod k < k" using assms(1) by (rule pos_mod_bound)
  then have r2: "y mod k - 1 < k" by linarith
  have "y - 1 = k * (y div k) + (y mod k - 1)"
    by (simp add: algebra_simps)
  then have "(y - 1) div k = y div k"
    using r1 r2 by (rule int_div_pos_eq)
  then show ?thesis by simp
qed

lemma mod_400_100: "(y::int) mod 400 = 0 \<Longrightarrow> y mod 100 = 0"
  using dvd_trans [of 100 400 y] by (simp add: mod_eq_0_iff_dvd)

lemma mod_100_4: "(y::int) mod 100 = 0 \<Longrightarrow> y mod 4 = 0"
  using dvd_trans [of 4 100 y] by (simp add: mod_eq_0_iff_dvd)

lemma days_before_year_Suc:
  assumes "1 \<le> y"
  shows "days_before_year (y + 1) = days_before_year y + days_in_year y"
proof -
  define a4 a100 a400 where "a4 = y div 4" and "a100 = y div 100" and "a400 = y div 400"
  define b4 b100 b400 where "b4 = (y - 1) div 4" and "b100 = (y - 1) div 100"
    and "b400 = (y - 1) div 400"
  have eq: "days_before_year (y + 1) = y * 365 + a4 - a100 + a400"
    by (simp add: days_before_year_def a4_def a100_def a400_def)
  have eq': "days_before_year y = (y - 1) * 365 + b4 - b100 + b400"
    by (simp add: days_before_year_def Let_def b4_def b100_def b400_def)
  have e4: "y mod 4 = 0 \<Longrightarrow> a4 = b4 + 1" and n4: "y mod 4 \<noteq> 0 \<Longrightarrow> a4 = b4"
    unfolding a4_def b4_def by (rule div_step_eq, simp, assumption) (rule div_step_ne, simp, assumption)
  have e100: "y mod 100 = 0 \<Longrightarrow> a100 = b100 + 1" and n100: "y mod 100 \<noteq> 0 \<Longrightarrow> a100 = b100"
    unfolding a100_def b100_def by (rule div_step_eq, simp, assumption) (rule div_step_ne, simp, assumption)
  have e400: "y mod 400 = 0 \<Longrightarrow> a400 = b400 + 1" and n400: "y mod 400 \<noteq> 0 \<Longrightarrow> a400 = b400"
    unfolding a400_def b400_def by (rule div_step_eq, simp, assumption) (rule div_step_ne, simp, assumption)
  consider (a) "y mod 4 \<noteq> 0" | (b) "y mod 4 = 0" "y mod 100 \<noteq> 0"
    | (c) "y mod 100 = 0" "y mod 400 \<noteq> 0" | (d) "y mod 400 = 0"
    by argo
  then show ?thesis
  proof cases
    case a
    then have m100: "y mod 100 \<noteq> 0" using mod_100_4 [of y] by argo
    then have m400: "y mod 400 \<noteq> 0" using mod_400_100 [of y] by argo
    have "days_in_year y = 365" using a by (simp add: days_in_year_def is_leap_def)
    then show ?thesis using eq eq' n4 [OF a] n100 [OF m100] n400 [OF m400] by (simp add: algebra_simps)
  next
    case b
    then have m400: "y mod 400 \<noteq> 0" using mod_400_100 [of y] by argo
    have "days_in_year y = 366" using b by (simp add: days_in_year_def is_leap_def)
    then show ?thesis using eq eq' e4 [OF b(1)] n100 [OF b(2)] n400 [OF m400] by (simp add: algebra_simps)
  next
    case c
    then have z4: "y mod 4 = 0" using mod_100_4 [of y] by argo
    have "days_in_year y = 365" using c z4 by (simp add: days_in_year_def is_leap_def)
    then show ?thesis using eq eq' e4 [OF z4] e100 [OF c(1)] n400 [OF c(2)] by (simp add: algebra_simps)
  next
    case d
    then have z100: "y mod 100 = 0" using mod_400_100 [of y] by argo
    then have z4: "y mod 4 = 0" using mod_100_4 [of y] by argo
    have "days_in_year y = 366" using d z4 by (simp add: days_in_year_def is_leap_def)
    then show ?thesis using eq eq' e4 [OF z4] e100 [OF z100] e400 [OF d] by (simp add: algebra_simps)
  qed
qed

lemma days_before_year_mono:
  assumes "1 \<le> y" "y < y'"
  shows "days_before_year y + days_in_year y \<le> days_before_year y'"
proof -
  have "days_before_year (y + 1) \<le> days_before_year (y + 1 + int k)" for k
  proof (induction k)
    case 0 show ?case by simp
  next
    case (Suc k)
    have "days_before_year (y + 1 + int k + 1) =
        days_before_year (y + 1 + int k) + days_in_year (y + 1 + int k)"
      using assms(1) by (intro days_before_year_Suc) simp
    moreover have "0 \<le> days_in_year (y + 1 + int k)" by (simp add: days_in_year_def)
    ultimately show ?case using Suc by (simp add: add.assoc)
  qed
  from this [of "nat (y' - (y + 1))"] assms
  show ?thesis by (simp add: days_before_year_Suc)
qed

lemma month_cases:
  "1 \<le> (m::int) \<Longrightarrow> m \<le> 12 \<Longrightarrow>
   m = 1 \<or> m = 2 \<or> m = 3 \<or> m = 4 \<or> m = 5 \<or> m = 6 \<or> m = 7 \<or> m = 8 \<or> m = 9 \<or> m = 10 \<or> m = 11 \<or> m = 12"
  by arith

lemma days_before_month_next:
  assumes "1 \<le> m" "m \<le> 11"
  shows "days_before_month y (m + 1) = days_before_month y m + days_in_month y m"
proof -
  from assms have "m = 1 \<or> m = 2 \<or> m = 3 \<or> m = 4 \<or> m = 5 \<or> m = 6 \<or> m = 7 \<or> m = 8 \<or> m = 9 \<or> m = 10 \<or> m = 11"
    by arith
  then show ?thesis
    by (elim disjE)
       (simp_all add: days_before_month_def days_in_month_def DAYS_BEFORE_MONTH_def DAYS_IN_MONTH_def)
qed

lemma days_in_month_pos: "1 \<le> m \<Longrightarrow> m \<le> 12 \<Longrightarrow> 28 \<le> days_in_month y m"
  by (drule (1) month_cases, elim disjE)
     (simp_all add: days_in_month_def DAYS_IN_MONTH_def)

lemma days_before_month_end:
  "days_before_month y 12 + days_in_month y 12 = days_in_year y"
  by (simp add: days_before_month_def days_in_month_def DAYS_BEFORE_MONTH_def DAYS_IN_MONTH_def days_in_year_def)

lemma days_before_month_mono:
  assumes "1 \<le> m" "m < m'" "m' \<le> 12"
  shows "days_before_month y m + days_in_month y m \<le> days_before_month y m'"
proof -
  have "m + 1 + int k \<le> 12 \<Longrightarrow> days_before_month y (m + 1) \<le> days_before_month y (m + 1 + int k)" for k
  proof (induction k)
    case 0 show ?case by simp
  next
    case (Suc k)
    have "days_before_month y (m + 1 + int k + 1) =
        days_before_month y (m + 1 + int k) + days_in_month y (m + 1 + int k)"
      using assms(1) Suc.prems by (intro days_before_month_next) simp_all
    moreover have "28 \<le> days_in_month y (m + 1 + int k)"
      using assms(1) Suc.prems by (intro days_in_month_pos) simp_all
    ultimately show ?case using Suc by (simp add: add.assoc)
  qed
  from this [of "nat (m' - (m + 1))"] assms
  show ?thesis by (simp add: days_before_month_next)
qed

lemma days_before_month_nonneg: "1 \<le> m \<Longrightarrow> m \<le> 12 \<Longrightarrow> 0 \<le> days_before_month y m"
  by (drule (1) month_cases, elim disjE)
     (simp_all add: days_before_month_def DAYS_BEFORE_MONTH_def)

lemma yday_le:
  assumes "1 \<le> m" "m \<le> 12" "d \<le> days_in_month y m"
  shows "days_before_month y m + d \<le> days_in_year y"
proof (cases "m = 12")
  case True
  then show ?thesis using assms days_before_month_end [of y] by simp
next
  case False
  then have "days_before_month y m + days_in_month y m \<le> days_before_month y 12"
    using assms by (intro days_before_month_mono) simp_all
  moreover have "28 \<le> days_in_month y 12" by (intro days_in_month_pos) simp_all
  ultimately show ?thesis
    using assms days_before_month_end [of y] by simp
qed

lemma seconds_of_day_range:
  "valid_datetime t \<Longrightarrow> 0 \<le> seconds_of_day t \<and> seconds_of_day t < 86400"
  by (simp add: valid_datetime_def seconds_of_day_def)

lemma toordinal_less:
  assumes a: "valid_datetime a" and b: "valid_datetime b"
    and lt: "year a < year b \<or> (year a = year b \<and>
       (month a < month b \<or> (month a = month b \<and> day a < day b)))"
  shows "toordinal a < toordinal b"
proof -
  consider (y) "year a < year b"
    | (m) "year a = year b" "month a < month b"
    | (d) "year a = year b" "month a = month b" "day a < day b"
    using lt by blast
  then show ?thesis
  proof cases
    case y
    have "days_before_month (year a) (month a) + day a \<le> days_in_year (year a)"
      using a by (intro yday_le) (simp_all add: valid_datetime_def)
    moreover have "days_before_year (year a) + days_in_year (year a) \<le> days_before_year (year b)"
      using a y by (intro days_before_year_mono) (simp_all add: valid_datetime_def)
    moreover have "0 \<le> days_before_month (year b) (month b)"
      using b by (intro days_before_month_nonneg) (simp_all add: valid_datetime_def)
    moreover have "1 \<le> day b" using b by (simp add: valid_datetime_def)
    ultimately show ?thesis by (simp add: toordinal_def)
  next
    case m
    have "days_before_month (year a) (month a) + days_in_month (year a) (month a)
        \<le> days_before_month (year a) (month b)"
      using a b m by (intro days_before_month_mono) (simp_all add: valid_datetime_def)
    moreover have "day a \<le> days_in_month (year a) (month a)" "1 \<le> day b"
      using a b by (simp_all add: valid_datetime_def)
    ultimately show ?thesis using m by (simp add: toordinal_def)
  next
    case d
    then show ?thesis by (simp add: toordinal_def)
  qed
qed

lemma total_seconds_negative:
  assumes a: "valid_datetime a" and b: "valid_datetime b" and lt: "dt_less a b"
  shows "total_seconds_between a b < 0"
proof (cases "year a < year b \<or> (year a = year b \<and>
       (month a < month b \<or> (month a = month b \<and> day a < day b)))")
  case True
  then have "toordinal a + 1 \<le> toordinal b"
    using toordinal_less [OF a b] by simp
  then have "(toordinal a - toordinal b) * 86400 \<le> - 86400" by simp
  moreover have "seconds_of_day a < 86400" "0 \<le> seconds_of_day b"
    using seconds_of_day_range a b by blast+
  ultimately show ?thesis by (simp add: total_seconds_between_def)
next
  case False
  with lt have same: "year a = year b" "month a = month b" "day a = day b"
    and t: "hour a < hour b \<or> (hour a = hour b \<and>
       (minute a < minute b \<or> (minute a = minute b \<and> second a < second b)))"
    unfolding dt_less_def by auto
  have "toordinal a = toordinal b" using same by (simp add: toordinal_def)
  moreover have "seconds_of_day a < seconds_of_day b"
    using t a b by (auto simp: seconds_of_day_def valid_datetime_def)
  ultimately show ?thesis by (simp add: total_seconds_between_def)
qed

lemma strptime_valid: "strptime s = Inr t \<Longrightarrow> valid_datetime t"
  by (auto simp: strptime_def mk_datetime_def Let_def split: list.splits prod.splits if_splits)

lemma chunk_time_valid: "chunk_time c = Inr t \<Longrightarrow> valid_datetime t"
  by (auto simp: chunk_time_def split: sum.splits dest: strptime_valid)

lemma filter_length_mono:
  "(\<And>x. x \<in> set xs \<Longrightarrow> P x \<Longrightarrow> Q x) \<Longrightarrow> length (filter P xs) \<le> length (filter Q xs)"
  by (induction xs) auto

lemma malformed_gap:
  assumes "malformed a \<or> malformed b"
  shows "gap_of a b = Inr 300"
proof -
  have "\<exists>e. try_gap a b = Inl e"
    using assms by (auto simp: malformed_def try_gap_def split: sum.splits)
  then obtain e where e: "try_gap a b = Inl e" by blast
  then have "e = ValueError \<or> e = IndexError" by (rule try_gap_exn)
  with e show ?thesis by (auto simp: gap_of_def)
qed

lemma phase2_segment_count:
  assumes "chunks \<noteq> []" "phase2_segment chunks = Inr gs"
  shows "length gs = Suc (length (cut_points chunks 1))"
proof -
  have "group_starts gs = 0 # cut_points chunks 1"
    using phase2_segment_char [OF assms(1)] assms(2) by auto
  then have "length (group_starts gs) = Suc (length (cut_points chunks 1))" by simp
  then show ?thesis by (simp add: group_starts_def length_starts_from)
qed

subsection \<open>The examples, evaluated\<close>

lemma example_day_groups:
  "phase2_segment example_day =
     Inr [[chunk_at ''10-00-00'', chunk_at ''10-04-00''], [chunk_at ''10-20-00'']]"
  by code_simp

lemma close_chunks_gaps:
  "gap_of (close_chunks ! 0) (close_chunks ! 1) = Inr 240"
  "gap_of (close_chunks ! 1) (close_chunks ! 2) = Inr 600"
  by code_simp+

lemma far_chunks_gaps:
  "gap_of (far_chunks ! 0) (far_chunks ! 1) = Inr 601"
  "gap_of (far_chunks ! 1) (far_chunks ! 2) = Inr 1199"
  by code_simp+

lemma example_day_gaps:
  "gap_of (example_day ! 0) (example_day ! 1) = Inr 240"
  "gap_of (example_day ! 1) (example_day ! 2) = Inr 960"
  by code_simp+

lemma garbled_day_facts:
  "malformed (garbled_day ! 1)"
  "\<not> malformed (garbled_day ! 0)" "\<not> malformed (garbled_day ! 2)" "\<not> malformed (garbled_day ! 3)"
  "exceeds_threshold (garbled_day ! 2) (garbled_day ! 3)"
  "exceeds_threshold (repaired_day ! 2) (repaired_day ! 3)"
  by code_simp+

lemma repaired_day_groups:
  "phase2_segment repaired_day =
     Inr [[chunk_at ''10-00-00'', chunk_at ''10-05-00'', chunk_at ''10-10-00''],
          [chunk_at ''10-40-00'']]"
  by code_simp

lemma garbled_day_groups:
  "phase2_segment garbled_day =
     Inr [[chunk_at ''10-00-00'', garbled_chunk, chunk_at ''12-00-00''], [chunk_at ''12-30-00'']]"
  by code_simp

lemma backwards_day_times:
  "chunk_time (backwards_day ! 0) =
     Inr \<lparr>year = 2026, month = 2, day = 28, hour = 10, minute = 20, second = 0\<rparr>"
  "chunk_time (backwards_day ! 1) =
     Inr \<lparr>year = 2026, month = 2, day = 28, hour = 10, minute = 0, second = 0\<rparr>"
  by code_simp+

section \<open>The claims about the segmenter\<close>

text \<open>
  Claim C10.  Applied to the empty chunk list the segmenter returns the empty list of
  groups: it raises nothing and produces no empty group.
\<close>

theorem C10_segment_empty: "phase2_segment [] = Inr []"
  by (simp add: phase2_segment_def)

text \<open>
  Claim C1.  The groups the segmenter returns partition its input: no group is empty,
  and the groups' chunks, concatenated in output order, are the input sequence (no chunk
  omitted, duplicated or reordered).
\<close>

theorem C1_groups_partition_input:
  assumes "chunks \<noteq> []"
  shows "\<exists>gs. phase2_segment chunks = Inr gs \<and> concat gs = chunks \<and> (\<forall>g \<in> set gs. g \<noteq> [])"
  using phase2_segment_char [OF assms] by blast

text \<open>The example of the specification: chunks at 10:00:00, 10:04:00 and 10:20:00.\<close>

theorem C1_witness:
  "example_day \<noteq> [] \<and>
   phase2_segment example_day =
     Inr [[chunk_at ''10-00-00'', chunk_at ''10-04-00''], [chunk_at ''10-20-00'']] \<and>
   concat [[chunk_at ''10-00-00'', chunk_at ''10-04-00''], [chunk_at ''10-20-00'']] = example_day \<and>
   [] \<notin> set [[chunk_at ''10-00-00'', chunk_at ''10-04-00''], [chunk_at ''10-20-00'']]"
proof -
  have ne: "example_day \<noteq> []" by (simp add: example_day_def)
  from C1_groups_partition_input [OF ne] obtain gs where
    "phase2_segment example_day = Inr gs" "concat gs = example_day" "\<forall>g \<in> set gs. g \<noteq> []"
    by blast
  with ne example_day_groups show ?thesis by auto
qed

text \<open>
  Claim C4.  For a non-empty chunk sequence, chunk \<open>i\<close> (\<open>i > 0\<close>) starts a new group
  if and only if the gap computed between chunk \<open>i - 1\<close> and chunk \<open>i\<close> of the original
  sequence exceeds 600 seconds.  Hence a sequence with no gap above the threshold is one
  group, and a sequence of \<open>N\<close> chunks whose gaps all exceed it is \<open>N\<close> singleton groups.
\<close>

theorem C4_new_group_iff_gap_exceeds:
  assumes "chunks \<noteq> []"
  shows "\<exists>gs. phase2_segment chunks = Inr gs \<and> concat gs = chunks \<and>
     (\<forall>i. 0 < i \<and> i < length chunks \<longrightarrow>
        (i \<in> set (group_starts gs) \<longleftrightarrow> exceeds_threshold (chunks ! (i - 1)) (chunks ! i))) \<and>
     ((\<forall>i. 0 < i \<and> i < length chunks \<longrightarrow> \<not> exceeds_threshold (chunks ! (i - 1)) (chunks ! i))
        \<longrightarrow> gs = [chunks]) \<and>
     ((\<forall>i. 0 < i \<and> i < length chunks \<longrightarrow> exceeds_threshold (chunks ! (i - 1)) (chunks ! i))
        \<longrightarrow> gs = map (\<lambda>c. [c]) chunks)"
proof -
  obtain gs where gs: "phase2_segment chunks = Inr gs" "concat gs = chunks"
      "group_starts gs = 0 # cut_points chunks 1"
    using phase2_segment_char [OF assms] by blast
  have loop: "segment_loop chunks 1 [] [chunks ! 0] = Inr gs"
    using gs(1) assms by (simp add: phase2_segment_def)
  have hd: "chunks ! 0 # drop 1 chunks = chunks"
    using assms by (cases chunks) simp_all
  have iff: "\<forall>i. 0 < i \<and> i < length chunks \<longrightarrow>
        (i \<in> set (group_starts gs) \<longleftrightarrow> exceeds_threshold (chunks ! (i - 1)) (chunks ! i))"
    using gs(3) set_cut_points [of chunks] by auto
  have one: "gs = [chunks]"
    if "\<forall>i. 0 < i \<and> i < length chunks \<longrightarrow> \<not> exceeds_threshold (chunks ! (i - 1)) (chunks ! i)"
  proof -
    have "segment_loop chunks 1 [] [chunks ! 0] = Inr ([] @ [[chunks ! 0] @ drop 1 chunks])"
      using that by (intro segment_loop_no_cut) auto
    with loop hd show ?thesis by simp
  qed
  have single: "gs = map (\<lambda>c. [c]) chunks"
    if "\<forall>i. 0 < i \<and> i < length chunks \<longrightarrow> exceeds_threshold (chunks ! (i - 1)) (chunks ! i)"
  proof -
    have "segment_loop chunks 1 [] [chunks ! 0] =
        Inr ([] @ [[chunks ! 0]] @ map (\<lambda>c. [c]) (drop 1 chunks))"
      using that by (intro segment_loop_all_cut) auto
    moreover have "[chunks ! 0] # map (\<lambda>c. [c]) (drop 1 chunks) = map (\<lambda>c. [c]) chunks"
      using assms by (cases chunks) simp_all
    ultimately show ?thesis using loop by simp
  qed
  show ?thesis
    using gs(1,2) iff one single by blast
qed

text \<open>
  A mixed day, a day whose gaps are 240 and exactly 600 seconds (one group), and a day
  whose gaps are 601 and 1199 seconds (singletons).
\<close>

theorem C4_witness:
  "example_day \<noteq> [] \<and>
   \<not> exceeds_threshold (example_day ! 0) (example_day ! 1) \<and>
   exceeds_threshold (example_day ! 1) (example_day ! 2) \<and>
   (\<exists>gs. phase2_segment example_day = Inr gs \<and>
      1 \<notin> set (group_starts gs) \<and> 2 \<in> set (group_starts gs)) \<and>
   phase2_segment close_chunks = Inr [close_chunks] \<and>
   phase2_segment far_chunks = Inr (map (\<lambda>c. [c]) far_chunks)"
proof -
  have ne: "example_day \<noteq> []" "close_chunks \<noteq> []" "far_chunks \<noteq> []"
    by (simp_all add: example_day_def close_chunks_def far_chunks_def)
  have len: "length example_day = 3" "length close_chunks = 3" "length far_chunks = 3"
    by (simp_all add: example_day_def close_chunks_def far_chunks_def)
  have two: "i = 1 \<or> i = 2" if "0 < i" "i < 3" for i :: nat
    using that by arith
  have e: "\<not> exceeds_threshold (example_day ! 0) (example_day ! 1)"
      "exceeds_threshold (example_day ! 1) (example_day ! 2)"
    using example_day_gaps by (simp_all add: exceeds_threshold_def)
  from C4_new_group_iff_gap_exceeds [OF ne(1)] obtain gs where gs:
    "phase2_segment example_day = Inr gs"
    "\<forall>i. 0 < i \<and> i < length example_day \<longrightarrow>
        (i \<in> set (group_starts gs) \<longleftrightarrow>
         exceeds_threshold (example_day ! (i - 1)) (example_day ! i))"
    by blast
  have s1: "1 \<notin> set (group_starts gs)"
    using gs(2) [rule_format, of 1] e(1) by (simp add: len)
  have s2: "2 \<in> set (group_starts gs)"
    using gs(2) [rule_format, of 2] e(2) by (simp add: len)
  have c: "\<forall>i. 0 < i \<and> i < length close_chunks \<longrightarrow>
       \<not> exceeds_threshold (close_chunks ! (i - 1)) (close_chunks ! i)"
  proof (intro allI impI)
    fix i assume "0 < i \<and> i < length close_chunks"
    then have "i = 1 \<or> i = 2" using two [of i] by (simp add: len)
    then show "\<not> exceeds_threshold (close_chunks ! (i - 1)) (close_chunks ! i)"
      using close_chunks_gaps by (auto simp: exceeds_threshold_def)
  qed
  have f: "\<forall>i. 0 < i \<and> i < length far_chunks \<longrightarrow>
       exceeds_threshold (far_chunks ! (i - 1)) (far_chunks ! i)"
  proof (intro allI impI)
    fix i assume "0 < i \<and> i < length far_chunks"
    then have "i = 1 \<or> i = 2" using two [of i] by (simp add: len)
    then show "exceeds_threshold (far_chunks ! (i - 1)) (far_chunks ! i)"
      using far_chunks_gaps by (auto simp: exceeds_threshold_def)
  qed
  have "\<exists>gc. phase2_segment close_chunks = Inr gc \<and> gc = [close_chunks]"
    using C4_new_group_iff_gap_exceeds [OF ne(2)] c by (elim exE conjE) simp
  then have c': "phase2_segment close_chunks = Inr [close_chunks]" by simp
  have "\<exists>gf. phase2_segment far_chunks = Inr gf \<and> gf = map (\<lambda>c. [c]) far_chunks"
    using C4_new_group_iff_gap_exceeds [OF ne(3)] f by (elim exE conjE) simp
  then have f': "phase2_segment far_chunks = Inr (map (\<lambda>c. [c]) far_chunks)" by simp
  have g: "\<exists>gs. phase2_segment example_day = Inr gs \<and>
      1 \<notin> set (group_starts gs) \<and> 2 \<in> set (group_starts gs)"
    using gs(1) s1 s2 by (intro exI conjI)
  show ?thesis
    by (intro conjI ne(1) e g c' f')
qed

text \<open>
  Claim C3.  The segmenter raises nothing, whatever the chunk names.  Where the timestamp
  of either chunk of a neighbouring pair fails to parse, the gap is the default of 300
  seconds and the later chunk does not start a group.  So the number of groups does not
  exceed that of any sequence of the same length that takes the same decisions at the
  pairs whose timestamps both parse.
\<close>

theorem C3_malformed_timestamp_merges:
  "\<exists>gs. phase2_segment chunks = Inr gs \<and>
     (\<forall>i. 0 < i \<and> i < length chunks \<and>
          (malformed (chunks ! (i - 1)) \<or> malformed (chunks ! i)) \<longrightarrow>
          gap_of (chunks ! (i - 1)) (chunks ! i) = Inr 300 \<and> i \<notin> set (group_starts gs)) \<and>
     (\<forall>chunks' gs'.
          length chunks' = length chunks \<and> phase2_segment chunks' = Inr gs' \<and>
          (\<forall>i. 0 < i \<and> i < length chunks \<and>
               \<not> (malformed (chunks ! (i - 1)) \<or> malformed (chunks ! i)) \<longrightarrow>
               (exceeds_threshold (chunks' ! (i - 1)) (chunks' ! i) \<longleftrightarrow>
                exceeds_threshold (chunks ! (i - 1)) (chunks ! i))) \<longrightarrow>
          length gs \<le> length gs')"
proof (cases "chunks = []")
  case True
  then show ?thesis by (simp add: phase2_segment_def)
next
  case False
  then obtain gs where gs: "phase2_segment chunks = Inr gs"
      "group_starts gs = 0 # cut_points chunks 1"
    using phase2_segment_char by blast
  have no_cut: "\<not> exceeds_threshold a b" if "malformed a \<or> malformed b" for a b
    using malformed_gap [OF that] by (simp add: exceeds_threshold_def)
  have a: "gap_of (chunks ! (i - 1)) (chunks ! i) = Inr 300 \<and> i \<notin> set (group_starts gs)"
    if "0 < i" "i < length chunks" "malformed (chunks ! (i - 1)) \<or> malformed (chunks ! i)" for i
    using that malformed_gap [OF that(3)] no_cut [OF that(3)] set_cut_points [of chunks]
    by (auto simp: gs(2))
  have b: "length gs \<le> length gs'"
    if len: "length chunks' = length chunks" and gs': "phase2_segment chunks' = Inr gs'"
      and agree: "\<forall>i. 0 < i \<and> i < length chunks \<and>
               \<not> (malformed (chunks ! (i - 1)) \<or> malformed (chunks ! i)) \<longrightarrow>
               (exceeds_threshold (chunks' ! (i - 1)) (chunks' ! i) \<longleftrightarrow>
                exceeds_threshold (chunks ! (i - 1)) (chunks ! i))"
    for chunks' gs'
  proof -
    have ne: "chunks' \<noteq> []" using False len by auto
    have "length (cut_points chunks 1) \<le> length (cut_points chunks' 1)"
      unfolding cut_points_def len
    proof (rule filter_length_mono)
      fix i
      assume i: "i \<in> set [1..<length chunks]"
        and ex: "exceeds_threshold (chunks ! (i - 1)) (chunks ! i)"
      then have "\<not> (malformed (chunks ! (i - 1)) \<or> malformed (chunks ! i))"
        using no_cut by blast
      with i ex agree show "exceeds_threshold (chunks' ! (i - 1)) (chunks' ! i)" by auto
    qed
    then show ?thesis
      using phase2_segment_count [OF False gs(1)] phase2_segment_count [OF ne gs'] by simp
  qed
  show ?thesis using gs(1) a b by blast
qed

text \<open>A day with one garbled name between chunks two hours apart.\<close>

theorem C3_witness:
  "0 < (1::nat) \<and> 1 < length garbled_day \<and> malformed (garbled_day ! 1) \<and>
   gap_of (garbled_day ! 0) (garbled_day ! 1) = Inr 300 \<and>
   gap_of (garbled_day ! 1) (garbled_day ! 2) = Inr 300 \<and>
   (\<exists>gs. phase2_segment garbled_day = Inr gs \<and>
      1 \<notin> set (group_starts gs) \<and> 2 \<notin> set (group_starts gs) \<and> length gs \<le> 2)"
proof -
  have len: "length garbled_day = 4" "length repaired_day = 4"
    by (simp_all add: garbled_day_def repaired_day_def)
  have three: "i = 1 \<or> i = 2 \<or> i = 3" if "0 < i" "i < 4" for i :: nat
    using that by arith
  from C3_malformed_timestamp_merges [of garbled_day] obtain gs where gs:
    "phase2_segment garbled_day = Inr gs"
    "\<forall>i. 0 < i \<and> i < length garbled_day \<and>
          (malformed (garbled_day ! (i - 1)) \<or> malformed (garbled_day ! i)) \<longrightarrow>
          gap_of (garbled_day ! (i - 1)) (garbled_day ! i) = Inr 300 \<and>
          i \<notin> set (group_starts gs)"
    "\<forall>chunks' gs'.
          length chunks' = length garbled_day \<and> phase2_segment chunks' = Inr gs' \<and>
          (\<forall>i. 0 < i \<and> i < length garbled_day \<and>
               \<not> (malformed (garbled_day ! (i - 1)) \<or> malformed (garbled_day ! i)) \<longrightarrow>
               (exceeds_threshold (chunks' ! (i - 1)) (chunks' ! i) \<longleftrightarrow>
                exceeds_threshold (garbled_day ! (i - 1)) (garbled_day ! i))) \<longrightarrow>
          length gs \<le> length gs'"
    by blast
  have p1: "gap_of (garbled_day ! 0) (garbled_day ! 1) = Inr 300 \<and> 1 \<notin> set (group_starts gs)"
    using gs(2) [rule_format, of 1] garbled_day_facts(1) by (simp add: len)
  have p2: "gap_of (garbled_day ! 1) (garbled_day ! 2) = Inr 300 \<and> 2 \<notin> set (group_starts gs)"
    using gs(2) [rule_format, of 2] garbled_day_facts(1) by (simp add: len)
  have agree: "\<forall>i. 0 < i \<and> i < length garbled_day \<and>
               \<not> (malformed (garbled_day ! (i - 1)) \<or> malformed (garbled_day ! i)) \<longrightarrow>
               (exceeds_threshold (repaired_day ! (i - 1)) (repaired_day ! i) \<longleftrightarrow>
                exceeds_threshold (garbled_day ! (i - 1)) (garbled_day ! i))"
  proof (intro allI impI)
    fix i assume "0 < i \<and> i < length garbled_day \<and>
               \<not> (malformed (garbled_day ! (i - 1)) \<or> malformed (garbled_day ! i))"
    then have i: "i = 1 \<or> i = 2 \<or> i = 3"
        and ok: "\<not> malformed (garbled_day ! (i - 1))" "\<not> malformed (garbled_day ! i)"
      using three [of i] by (simp_all add: len)
    from i ok show "exceeds_threshold (repaired_day ! (i - 1)) (repaired_day ! i) \<longleftrightarrow>
                exceeds_threshold (garbled_day ! (i - 1)) (garbled_day ! i)"
      using garbled_day_facts by auto
  qed
  have "length gs \<le> length [[chunk_at ''10-00-00'', chunk_at ''10-05-00'', chunk_at ''10-10-00''],
          [chunk_at ''10-40-00'']]"
    using gs(3) [rule_format, of repaired_day] agree repaired_day_groups by (simp add: len)
  then have "length gs \<le> 2" by simp
  with gs(1) p1 p2 garbled_day_facts(1) len show ?thesis by auto
qed

text \<open>
  Claim C9.  Where both timestamps of a neighbouring pair parse and the later chunk's
  timestamp is earlier than the previous chunk's, the computed gap is negative, the chunk
  does not start a group, and no error is raised.
\<close>

theorem C9_out_of_order_timestamps_merge:
  assumes "0 < i" and "i < length chunks"
    and "chunk_time (chunks ! (i - 1)) = Inr prev_time"
    and "chunk_time (chunks ! i) = Inr curr_time"
    and "dt_less curr_time prev_time"
  shows "\<exists>gap gs. gap_of (chunks ! (i - 1)) (chunks ! i) = Inr gap \<and> gap < 0 \<and>
           phase2_segment chunks = Inr gs \<and> i \<notin> set (group_starts gs)"
proof -
  have neg: "total_seconds_between curr_time prev_time < 0"
    using assms(3-5) by (intro total_seconds_negative chunk_time_valid)
  have gap: "gap_of (chunks ! (i - 1)) (chunks ! i) = Inr (total_seconds_between curr_time prev_time)"
    using assms(3,4) by (simp add: gap_of_def try_gap_def)
  have ne: "chunks \<noteq> []" using assms(2) by auto
  obtain gs where gs: "phase2_segment chunks = Inr gs"
      "group_starts gs = 0 # cut_points chunks 1"
    using phase2_segment_char [OF ne] by blast
  have "\<not> exceeds_threshold (chunks ! (i - 1)) (chunks ! i)"
    using gap neg by (simp add: exceeds_threshold_def)
  then have "i \<notin> set (group_starts gs)"
    using assms(1) set_cut_points [of chunks] by (auto simp: gs(2))
  with gap neg gs(1) show ?thesis by blast
qed

text \<open>Two chunks in the wrong order, twenty minutes apart.\<close>

theorem C9_witness:
  "0 < (1::nat) \<and> 1 < length backwards_day \<and>
   dt_less \<lparr>year = 2026, month = 2, day = 28, hour = 10, minute = 0, second = 0\<rparr>
           \<lparr>year = 2026, month = 2, day = 28, hour = 10, minute = 20, second = 0\<rparr> \<and>
   (\<exists>gap gs. gap_of (backwards_day ! 0) (backwards_day ! 1) = Inr gap \<and> gap < 0 \<and>
      phase2_segment backwards_day = Inr gs \<and> 1 \<notin> set (group_starts gs))"
proof -
  have len: "1 < length backwards_day" by (simp add: backwards_day_def)
  have lt: "dt_less \<lparr>year = 2026, month = 2, day = 28, hour = 10, minute = 0, second = 0\<rparr>
           \<lparr>year = 2026, month = 2, day = 28, hour = 10, minute = 20, second = 0\<rparr>"
    by (simp add: dt_less_def)
  have t0: "chunk_time (backwards_day ! (1 - 1)) =
     Inr \<lparr>year = 2026, month = 2, day = 28, hour = 10, minute = 20, second = 0\<rparr>"
    using backwards_day_times(1) by simp
  from C9_out_of_order_timestamps_merge [OF _ len t0 backwards_day_times(2) lt]
  have "\<exists>gap gs. gap_of (backwards_day ! (1 - 1)) (backwards_day ! 1) = Inr gap \<and> gap < 0 \<and>
      phase2_segment backwards_day = Inr gs \<and> 1 \<notin> set (group_starts gs)"
    by simp
  then show ?thesis using len lt by simp
qed

section \<open>Properties of phases 3 and 4\<close>

lemma concat_one_singleton:
  "length conv = 1 \<Longrightarrow> concat_one w output_dir i conv = (Inr (conv ! 0), [])"
  by (simp add: concat_one_def)

lemma concat_one_merges:
  "length (filter is_merge (snd (concat_one w output_dir i conv))) \<le>
     (if length conv = 1 then 0 else 1)"
  by (simp add: concat_one_def Let_def is_merge_def split: option.splits)

lemma concat_loop_merges:
  "length (filter is_merge (snd (concat_loop w output_dir i convs outputs evs))) \<le>
     length (filter is_merge evs) + length (filter (\<lambda>c. length c \<noteq> 1) convs)"
proof (induction convs arbitrary: i outputs evs)
  case Nil
  then show ?case by simp
next
  case (Cons conv convs)
  obtain r ev where one: "concat_one w output_dir i conv = (r, ev)"
    by (cases "concat_one w output_dir i conv")
  have m: "length (filter is_merge ev) \<le> (if length conv = 1 then 0 else 1)"
    using concat_one_merges [of w output_dir i conv] one by simp
  show ?case
  proof (cases r)
    case (Inl e)
    with one m show ?thesis by (simp split: if_splits)
  next
    case (Inr artifact)
    have "length (filter is_merge
             (snd (concat_loop w output_dir (i + 1) convs (outputs @ [artifact]) (evs @ ev)))) \<le>
          length (filter is_merge (evs @ ev)) + length (filter (\<lambda>c. length c \<noteq> 1) convs)"
      by (rule Cons.IH)
    with one Inr m show ?thesis by (simp split: if_splits)
  qed
qed

lemma concat_loop_outputs:
  assumes "concat_loop w output_dir i convs outputs evs = (Inr res, evs')"
  shows "length res = length outputs + length convs \<and> take (length outputs) res = outputs \<and>
     (\<forall>k<length convs. length (convs ! k) = 1 \<longrightarrow> res ! (length outputs + k) = convs ! k ! 0)"
  using assms
proof (induction convs arbitrary: i outputs evs)
  case Nil
  then show ?case by simp
next
  case (Cons conv convs)
  obtain r ev where one: "concat_one w output_dir i conv = (r, ev)"
    by (cases "concat_one w output_dir i conv")
  with Cons.prems obtain artifact where r: "r = Inr artifact"
    by (cases r) simp_all
  have loop: "concat_loop w output_dir (i + 1) convs (outputs @ [artifact]) (evs @ ev) = (Inr res, evs')"
    using Cons.prems one r by simp
  note ih = Cons.IH [OF loop]
  have len: "length res = length outputs + length (conv # convs)"
    using ih by simp
  have tk: "take (Suc (length outputs)) res = outputs @ [artifact]"
    using ih by simp
  have "take (length outputs) (take (Suc (length outputs)) res) = take (length outputs) res"
    by (simp add: min_def)
  with tk have out: "take (length outputs) res = outputs" by simp
  have "res ! length outputs = take (Suc (length outputs)) res ! length outputs"
    by simp
  with tk have here: "res ! length outputs = artifact" by simp
  have art: "length conv = 1 \<Longrightarrow> artifact = conv ! 0"
    using one r by (simp add: concat_one_def)
  have "res ! (length outputs + k) = (conv # convs) ! k ! 0"
    if "k < length (conv # convs)" "length ((conv # convs) ! k) = 1" for k
  proof (cases k)
    case 0
    with that here art show ?thesis by simp
  next
    case (Suc j)
    with that ih show ?thesis by simp
  qed
  with len out show ?case by blast
qed

lemma format_lines_rows: "format_lines (map utterance_of rows) = Inr (map spec_line rows)"
  by (induction rows)
     (auto simp: utterance_of_def spec_line_def format_utterance_def split: prod.splits)

lemma round_half_even_near: "\<bar>1000 * round_half_even ms - ms\<bar> \<le> 500"
proof -
  have m: "0 \<le> ms mod 1000" "ms mod 1000 < 1000" by simp_all
  have e: "ms = 1000 * (ms div 1000) + ms mod 1000" by simp
  define q r where "q = ms div 1000" and "r = ms mod 1000"
  from m e have "0 \<le> r" "r < 1000" "ms = 1000 * q + r" by (simp_all add: q_def r_def)
  then show ?thesis
    unfolding round_half_even_def Let_def q_def [symmetric] r_def [symmetric]
    by (auto split: if_splits)
qed

lemma poll_loop_step:
  assumes "pending (aai_poll w key tid n)"
  shows "poll_loop w key tid n evs =
     poll_loop w key tid (n + 1) (evs @ [HttpGet (transcript_url @ ''/'' @ tid), Sleep 3])"
  using assms
  by (subst poll_loop.simps) (auto simp: pending_def Let_def split: sum.splits option.splits)

lemma poll_loop_pending:
  assumes "\<forall>k<n. pending (aai_poll w key tid (n0 + k))"
  shows "poll_loop w key tid n0 evs =
     poll_loop w key tid (n0 + n)
       (evs @ concat (replicate n [HttpGet (transcript_url @ ''/'' @ tid), Sleep 3]))"
  using assms
proof (induction n arbitrary: n0 evs)
  case 0
  then show ?case by simp
next
  case (Suc n)
  have p0: "pending (aai_poll w key tid n0)" using Suc.prems [rule_format, of 0] by simp
  have rest: "\<forall>k<n. pending (aai_poll w key tid (n0 + 1 + k))"
    using Suc.prems by (auto simp: add.assoc dest: spec [where x = "Suc k" for k])
  have "poll_loop w key tid n0 evs =
      poll_loop w key tid (n0 + 1) (evs @ [HttpGet (transcript_url @ ''/'' @ tid), Sleep 3])"
    by (rule poll_loop_step [OF p0])
  also have "\<dots> = poll_loop w key tid (n0 + 1 + n)
      ((evs @ [HttpGet (transcript_url @ ''/'' @ tid), Sleep 3]) @
       concat (replicate n [HttpGet (transcript_url @ ''/'' @ tid), Sleep 3]))"
    by (rule Suc.IH [OF rest])
  finally show ?case by simp
qed

lemma job_endsE:
  assumes "job_ends w audio n result"
  obtains key bytes url tid where
    "environ w ''ASSEMBLYAI_API_KEY'' = Some key" "key \<noteq> []"
    "read_file w audio = Inr bytes"
    "aai_upload w key bytes = Inr (Some url)"
    "aai_transcript w key url = Inr (Some tid)"
    "\<forall>k<n. pending (aai_poll w key tid k)"
    "aai_poll w key tid n = Inr result"
proof -
  from assms obtain key where k: "environ w ''ASSEMBLYAI_API_KEY'' = Some key"
    by (cases "environ w ''ASSEMBLYAI_API_KEY''") (simp_all add: job_ends_def)
  with assms have ne: "key \<noteq> []" by (simp add: job_ends_def)
  from assms k obtain bytes where b: "read_file w audio = Inr bytes"
    by (cases "read_file w audio") (simp_all add: job_ends_def)
  from assms k b obtain url where u: "aai_upload w key bytes = Inr (Some url)"
    by (cases "aai_upload w key bytes") (auto simp: job_ends_def split: option.splits)
  from assms k b u obtain tid where t: "aai_transcript w key url = Inr (Some tid)"
    by (cases "aai_transcript w key url") (auto simp: job_ends_def split: option.splits)
  from assms k b u t have "\<forall>k<n. pending (aai_poll w key tid k)"
      "aai_poll w key tid n = Inr result"
    by (simp_all add: job_ends_def list_all_iff)
  with k ne b u t show ?thesis by (rule that)
qed

lemma poll_loop_completed:
  assumes "aai_poll w key tid n = Inr result" "r_status result = Some ''completed''"
  shows "poll_loop w key tid n evs =
     Some (Inr (Completed result), evs @ [HttpGet (transcript_url @ ''/'' @ tid)])"
  using assms by (subst poll_loop.simps) (simp add: Let_def)

lemma poll_loop_error:
  assumes "aai_poll w key tid n = Inr result" "r_status result = Some ''error''"
  shows "poll_loop w key tid n evs =
     Some (Inr (Returned (''Error: '' @ (case r_error result of None \<Rightarrow> ''unknown'' | Some m \<Rightarrow> m))),
           evs @ [HttpGet (transcript_url @ ''/'' @ tid)])"
  using assms by (subst poll_loop.simps) (simp add: Let_def)

lemma job_ends_completed:
  assumes "job_ends w audio n result" "r_status result = Some ''completed''"
  shows "\<exists>evs. diarize_assemblyai w audio = Some (format_result result, evs)"
proof -
  from assms(1) obtain key bytes url tid where
    k: "environ w ''ASSEMBLYAI_API_KEY'' = Some key" "key \<noteq> []"
    and b: "read_file w audio = Inr bytes"
    and u: "aai_upload w key bytes = Inr (Some url)"
    and t: "aai_transcript w key url = Inr (Some tid)"
    and p: "\<forall>k<n. pending (aai_poll w key tid k)"
    and r: "aai_poll w key tid n = Inr result"
    by (rule job_endsE)
  have "poll_loop w key tid 0 evs =
     Some (Inr (Completed result),
       (evs @ concat (replicate n [HttpGet (transcript_url @ ''/'' @ tid), Sleep 3])) @
       [HttpGet (transcript_url @ ''/'' @ tid)])" for evs
    using poll_loop_pending [of n w key tid 0 evs] p poll_loop_completed [OF r assms(2)]
    by simp
  then show ?thesis
    using k b u t by (simp add: diarize_assemblyai_def Let_def)
qed

lemma job_ends_error:
  assumes "job_ends w audio n result" "r_status result = Some ''error''"
  shows "\<exists>evs. diarize_assemblyai w audio =
     Some (Inr (''Error: '' @ (case r_error result of None \<Rightarrow> ''unknown'' | Some m \<Rightarrow> m)), evs)"
proof -
  from assms(1) obtain key bytes url tid where
    k: "environ w ''ASSEMBLYAI_API_KEY'' = Some key" "key \<noteq> []"
    and b: "read_file w audio = Inr bytes"
    and u: "aai_upload w key bytes = Inr (Some url)"
    and t: "aai_transcript w key url = Inr (Some tid)"
    and p: "\<forall>k<n. pending (aai_poll w key tid k)"
    and r: "aai_poll w key tid n = Inr result"
    by (rule job_endsE)
  have "poll_loop w key tid 0 evs =
     Some (Inr (Returned (''Error: '' @ (case r_error result of None \<Rightarrow> ''unknown'' | Some m \<Rightarrow> m))),
       (evs @ concat (replicate n [HttpGet (transcript_url @ ''/'' @ tid), Sleep 3])) @
       [HttpGet (transcript_url @ ''/'' @ tid)])" for evs
    using poll_loop_pending [of n w key tid 0 evs] p poll_loop_error [OF r assms(2)]
    by simp
  then show ?thesis
    using k b u t by (simp add: diarize_assemblyai_def Let_def)
qed

lemma no_key_assemblyai:
  assumes "environ w ''ASSEMBLYAI_API_KEY'' = None \<or> environ w ''ASSEMBLYAI_API_KEY'' = Some []"
  shows "diarize_assemblyai w audio = Some (Inr ''Error: ASSEMBLYAI_API_KEY not set'', [])"
  using assms by (auto simp: diarize_assemblyai_def)

lemma no_key_gemini:
  assumes "environ w ''GEMINI_API_KEY'' = None \<or> environ w ''GEMINI_API_KEY'' = Some []"
  shows "diarize_gemini w audio = Some (Inr ''Error: GEMINI_API_KEY not set'', [])"
  using assms by (auto simp: diarize_gemini_def)

lemma diarize_loop_returns:
  assumes "\<forall>a \<in> set audios. returns_text w provider a"
  shows "diarize_loop w provider audios all_text evs =
     Some (Inr (all_text @ map (block w provider) audios),
           evs @ concat (map (events w provider) audios))"
  using assms
proof (induction audios arbitrary: all_text evs)
  case Nil
  then show ?case by simp
next
  case (Cons a audios)
  from Cons.prems obtain tx ev where t: "transcribe w provider a = Some (Inr tx, ev)"
    by (auto simp: returns_text_def split: option.splits sum.splits prod.splits)
  then have "block w provider a = tx" "events w provider a = ev"
    by (simp_all add: block_def events_def)
  with t Cons show ?case by simp
qed

lemma diarize_loop_raises:
  assumes "\<forall>a \<in> set before. returns_text w provider a"
    and "transcribe w provider a = Some (Inl e, ev)"
  shows "diarize_loop w provider (before @ a # rest) all_text evs =
     Some (Inl e, evs @ concat (map (events w provider) before) @ ev)"
  using assms
proof (induction before arbitrary: all_text evs)
  case Nil
  then show ?case by simp
next
  case (Cons b before)
  from Cons.prems obtain tx ev' where t: "transcribe w provider b = Some (Inr tx, ev')"
    by (auto simp: returns_text_def split: option.splits sum.splits prod.splits)
  then have "events w provider b = ev'" by (simp add: events_def)
  with t Cons show ?case by simp
qed

lemma returns_text_const:
  assumes "transcribe w provider a = Some (Inr msg, [])"
  shows "returns_text w provider a" "block w provider a = msg" "events w provider a = []"
  using assms by (simp_all add: returns_text_def block_def events_def)

lemma phase4_diarize_returns:
  assumes "mkdir w (parent tp) = None"
    and "\<forall>a \<in> set audios. returns_text w provider a"
    and "write_text w tp (join separator (map (block w provider) audios)) = None"
  shows "phase4_diarize w audios tp provider =
     Some (Inr tp, Mkdir (parent tp) # concat (map (events w provider) audios) @
                   [WriteFile tp (join separator (map (block w provider) audios))])"
  using assms(1,3) by (simp add: phase4_diarize_def diarize_loop_returns [OF assms(2)])

lemma phase4_diarize_no_key:
  assumes t: "\<And>a. transcribe w provider a = Some (Inr msg, [])"
    and mk: "mkdir w (parent tp) = None"
    and wr: "write_text w tp (join separator (replicate (length audios) msg)) = None"
  shows "phase4_diarize w audios tp provider =
     Some (Inr tp, [Mkdir (parent tp),
                    WriteFile tp (join separator (replicate (length audios) msg))])"
proof -
  have b: "map (block w provider) audios = replicate (length audios) msg"
    by (induction audios) (simp_all add: returns_text_const(2) [OF t])
  have e: "concat (map (events w provider) audios) = []"
    using returns_text_const(3) [OF t] by simp
  have r: "\<forall>a \<in> set audios. returns_text w provider a"
    using returns_text_const(1) [OF t] by simp
  show ?thesis
    using phase4_diarize_returns [OF mk r] wr b e by simp
qed

section \<open>The claims about phases 3 and 4\<close>

text \<open>
  Claim C5.  For a conversation group of exactly one chunk the merge stage starts no merge:
  the step for that group causes no event at all and its artifact is the group's chunk
  itself.  In the outputs of a run that returns, the slot of every such group holds that
  chunk, and the merge tool is started at most once per group of another size.
\<close>

theorem C5_singleton_group_not_merged:
  "(length conv = 1 \<longrightarrow> concat_one w output_dir i conv = (Inr (conv ! 0), [])) \<and>
   (\<forall>outputs evs. phase3_concat w conversations output_dir = (Inr outputs, evs) \<longrightarrow>
      length outputs = length conversations \<and>
      (\<forall>k<length conversations. length (conversations ! k) = 1 \<longrightarrow>
         outputs ! k = conversations ! k ! 0)) \<and>
   length (filter is_merge (snd (phase3_concat w conversations output_dir))) \<le>
     length (filter (\<lambda>c. length c \<noteq> 1) conversations)"
proof (intro conjI allI impI)
  assume "length conv = 1"
  then show "concat_one w output_dir i conv = (Inr (conv ! 0), [])"
    by (rule concat_one_singleton)
next
  fix outputs evs
  assume a: "phase3_concat w conversations output_dir = (Inr outputs, evs)"
  then have "concat_loop w output_dir 0 conversations [] [Mkdir output_dir] = (Inr outputs, evs)"
    by (simp add: phase3_concat_def split: option.splits)
  from concat_loop_outputs [OF this]
  show "length outputs = length conversations" by simp
next
  fix outputs evs k
  assume a: "phase3_concat w conversations output_dir = (Inr outputs, evs)"
    and k: "k < length conversations" "length (conversations ! k) = 1"
  from a have "concat_loop w output_dir 0 conversations [] [Mkdir output_dir] = (Inr outputs, evs)"
    by (simp add: phase3_concat_def split: option.splits)
  from concat_loop_outputs [OF this] k
  show "outputs ! k = conversations ! k ! 0" by simp
next
  show "length (filter is_merge (snd (phase3_concat w conversations output_dir))) \<le>
     length (filter (\<lambda>c. length c \<noteq> 1) conversations)"
    using concat_loop_merges [of w output_dir 0 conversations "[]" "[Mkdir output_dir]"]
    by (simp add: phase3_concat_def is_merge_def split: option.splits)
qed

text \<open>
  Claim C6.  Where the job completes with a non-empty list of utterances, the asynchronous
  provider returns the lines \<open>**Speaker <label>** (<offset>s): <text>\<close> of the
  utterances, in the order of the response, joined by blank lines; the offset is the start
  in milliseconds turned into the nearest whole second.
\<close>

theorem C6_utterances_rendered:
  assumes "job_ends w audio n result" and "r_status result = Some ''completed''"
    and "r_utterances result = Some (map utterance_of rows)" and "rows \<noteq> []"
  shows "(\<exists>evs. diarize_assemblyai w audio =
            Some (Inr (join (nl @ nl) (map spec_line rows)), evs)) \<and>
         (\<forall>ms. \<bar>1000 * round_half_even ms - ms\<bar> \<le> 500) \<and>
         (\<forall>ms. 0 \<le> ms \<longrightarrow> seconds_str ms = str_nat (nat (round_half_even ms)))"
proof -
  have "format_result result = Inr (join (nl @ nl) (map spec_line rows))"
    using assms(3,4) by (simp add: format_result_def format_lines_rows)
  with job_ends_completed [OF assms(1,2)] show ?thesis
    by (simp add: round_half_even_near seconds_str_def)
qed

text \<open>
  Claim C7.  Where the job completes with no utterance, the block is the literal
  \<open>No text\<close> when the response has no fallback text, and the fallback text itself
  when it has one.
\<close>

theorem C7_no_text_placeholder:
  assumes "job_ends w audio n result" and "r_status result = Some ''completed''"
    and "r_utterances result = None \<or> r_utterances result = Some []"
  shows "(r_text result = None \<longrightarrow>
            (\<exists>evs. diarize_assemblyai w audio = Some (Inr ''No text'', evs))) \<and>
         (\<forall>t. r_text result = Some t \<longrightarrow>
            (\<exists>evs. diarize_assemblyai w audio = Some (Inr t, evs)))"
proof -
  have "format_result result = Inr (case r_text result of None \<Rightarrow> ''No text'' | Some t \<Rightarrow> t)"
    using assms(3) by (auto simp: format_result_def)
  with job_ends_completed [OF assms(1,2)] show ?thesis by auto
qed

text \<open>
  Claim C8.  For each provider: where its credential is absent from the environment, the
  provider call returns the inline error text and causes no event, so no request is sent;
  and the run over any list of audio files does not raise but writes a transcript of
  these texts, its only events being the directory and the transcript file.
\<close>

theorem C8_missing_credential_inline_error:
  "(environ w ''ASSEMBLYAI_API_KEY'' = None \<longrightarrow>
      diarize_assemblyai w audio = Some (Inr assemblyai_missing, []) \<and>
      (mkdir w (parent tp) = None \<and>
       write_text w tp (join separator (replicate (length audios) assemblyai_missing)) = None \<longrightarrow>
       phase4_diarize w audios tp ''assemblyai'' =
         Some (Inr tp, [Mkdir (parent tp),
           WriteFile tp (join separator (replicate (length audios) assemblyai_missing))]))) \<and>
   (environ w ''GEMINI_API_KEY'' = None \<longrightarrow>
      diarize_gemini w audio = Some (Inr gemini_missing, []) \<and>
      (mkdir w (parent tp) = None \<and>
       write_text w tp (join separator (replicate (length audios) gemini_missing)) = None \<longrightarrow>
       phase4_diarize w audios tp ''gemini'' =
         Some (Inr tp, [Mkdir (parent tp),
           WriteFile tp (join separator (replicate (length audios) gemini_missing))])))"
proof (intro conjI impI)
  assume k: "environ w ''ASSEMBLYAI_API_KEY'' = None"
  then show "diarize_assemblyai w audio = Some (Inr assemblyai_missing, [])"
    by (simp add: no_key_assemblyai assemblyai_missing_def)
  assume "mkdir w (parent tp) = None \<and>
       write_text w tp (join separator (replicate (length audios) assemblyai_missing)) = None"
  moreover have "transcribe w ''assemblyai'' a = Some (Inr assemblyai_missing, [])" for a
    using k by (simp add: transcribe_def no_key_assemblyai assemblyai_missing_def)
  ultimately show "phase4_diarize w audios tp ''assemblyai'' =
         Some (Inr tp, [Mkdir (parent tp),
           WriteFile tp (join separator (replicate (length audios) assemblyai_missing))])"
    by (intro phase4_diarize_no_key) simp_all
next
  assume k: "environ w ''GEMINI_API_KEY'' = None"
  then show "diarize_gemini w audio = Some (Inr gemini_missing, [])"
    by (simp add: no_key_gemini gemini_missing_def)
  assume "mkdir w (parent tp) = None \<and>
       write_text w tp (join separator (replicate (length audios) gemini_missing)) = None"
  moreover have "transcribe w ''gemini'' a = Some (Inr gemini_missing, [])" for a
    using k by (simp add: transcribe_def no_key_gemini gemini_missing_def)
  ultimately show "phase4_diarize w audios tp ''gemini'' =
         Some (Inr tp, [Mkdir (parent tp),
           WriteFile tp (join separator (replicate (length audios) gemini_missing))])"
    by (intro phase4_diarize_no_key) simp_all
qed

end
